theory Spec2Isabelle
  imports Main
begin

chapter \<open>The model\<close>

section \<open>JavaScript strings\<close>

text \<open>
  A JavaScript string is a sequence of UTF-16 code units and \<open>length\<close> counts code units.
  A text is modelled as a \<^typ>\<open>string\<close>, one \<^typ>\<open>char\<close> per code unit, so the model
  covers the texts whose code units are all below 256.
\<close>

text \<open>\<open>String.prototype.trim\<close> removes white space and line terminators from both ends.
  Below 256 these are TAB, LF, VT, FF, CR, SP and NBSP.\<close>

definition is_js_space :: "char \<Rightarrow> bool" where
  "is_js_space c =
     (c = CHR 0x09 \<or> c = CHR 0x0A \<or> c = CHR 0x0B \<or> c = CHR 0x0C \<or> c = CHR 0x0D \<or>
      c = CHR 0x20 \<or> c = CHR 0xA0)"

definition trim :: "string \<Rightarrow> string" where
  "trim s = rev (dropWhile is_js_space (rev (dropWhile is_js_space s)))"

text \<open>\<open>s.startsWith(p)\<close>, \<open>s.endsWith(p)\<close> and \<open>s.includes(c)\<close> for a one-character \<open>c\<close>.\<close>

definition startsWith :: "string \<Rightarrow> string \<Rightarrow> bool" where
  "startsWith s p = (take (length p) s = p)"

definition endsWith :: "string \<Rightarrow> string \<Rightarrow> bool" where
  "endsWith s p = (length p \<le> length s \<and> drop (length s - length p) s = p)"

definition includes_js :: "string \<Rightarrow> char \<Rightarrow> bool" where
  "includes_js s c = (c \<in> set s)"

text \<open>\<open>text.split("\n")\<close>: the pieces between line feeds; a text without line feed is one
  piece, and the empty text gives one empty piece.\<close>

fun split_lines :: "string \<Rightarrow> string list" where
  "split_lines [] = [[]]"
| "split_lines (c # cs) =
     (if c = CHR 0x0A then [] # split_lines cs
      else (case split_lines cs of [] \<Rightarrow> [[c]] | l # ls \<Rightarrow> (c # l) # ls))"

text \<open>The decimal digits of a natural number, as a template literal prints a line number.\<close>

definition digit_char :: "nat \<Rightarrow> char" where
  "digit_char d = char_of (48 + d)"

function show_nat :: "nat \<Rightarrow> string" where
  "show_nat n = (if n < 10 then [digit_char n] else show_nat (n div 10) @ [digit_char (n mod 10)])"
  by pat_completeness auto
termination
  by (relation "measure id") auto

declare show_nat.simps [simp del]

section \<open>JSON values and \<open>JSON.parse\<close>\<close>

text \<open>
  The values \<open>JSON.parse\<close> produces. A number is kept as the exact decimal it denotes,
  \<open>JNumber m e\<close> for \<open>m * 10 ^ e\<close> with \<open>m\<close> not divisible by ten (zero is \<open>JNumber 0 0\<close>);
  rounding to a double and the sign of zero are not modelled. An object is the list of
  its properties in the order of first insertion. JavaScript \<open>null\<close> is \<open>JNull\<close>.
\<close>

datatype json =
    JNull
  | JBool bool
  | JNumber int int
  | JString string
  | JArray "json list"
  | JObject "(string \<times> json) list"

datatype token =
    LBrace | RBrace | LBrack | RBrack | Colon | Comma
  | TStr string | TNum int int | TTrue | TFalse | TNull

definition is_json_ws :: "char \<Rightarrow> bool" where
  "is_json_ws c = (c = CHR 0x20 \<or> c = CHR 0x09 \<or> c = CHR 0x0A \<or> c = CHR 0x0D)"

definition is_digit :: "char \<Rightarrow> bool" where
  "is_digit c = (48 \<le> (of_char c :: nat) \<and> (of_char c :: nat) \<le> 57)"

definition digit_val :: "char \<Rightarrow> nat" where
  "digit_val c = of_char c - 48"

definition digits_val :: "string \<Rightarrow> nat" where
  "digits_val ds = foldl (\<lambda>a c. 10 * a + digit_val c) 0 ds"

definition hex_val :: "char \<Rightarrow> nat option" where
  "hex_val c =
     (let n = (of_char c :: nat) in
      if 48 \<le> n \<and> n \<le> 57 then Some (n - 48)
      else if 65 \<le> n \<and> n \<le> 70 then Some (n - 55)
      else if 97 \<le> n \<and> n \<le> 102 then Some (n - 87)
      else None)"

definition unescape :: "char \<Rightarrow> char option" where
  "unescape e =
     (if e = CHR 0x22 then Some (CHR 0x22)
      else if e = CHR 0x5C then Some (CHR 0x5C)
      else if e = CHR ''/'' then Some (CHR ''/'')
      else if e = CHR ''b'' then Some (CHR 0x08)
      else if e = CHR ''f'' then Some (CHR 0x0C)
      else if e = CHR ''n'' then Some (CHR 0x0A)
      else if e = CHR ''r'' then Some (CHR 0x0D)
      else if e = CHR ''t'' then Some (CHR 0x09)
      else None)"

text \<open>The characters of a string literal after its opening quote, up to the closing quote:
  the decoded content and the rest of the text. A raw control character, a bad escape or
  a missing closing quote is a syntax error. A \<open>\u\<close> escape above 255 is cut to eight
  bits (\<^const>\<open>char_of\<close>), the only place where the model leaves the text's alphabet.\<close>

fun lex_string :: "string \<Rightarrow> (string \<times> string) option" where
  "lex_string [] = None"
| "lex_string (c # cs) =
     (if c = CHR 0x22 then Some ([], cs)
      else if c = CHR 0x5C then
        (case cs of
           [] \<Rightarrow> None
         | e # r \<Rightarrow>
            (if e = CHR ''u'' then
               (case r of
                  h1 # h2 # h3 # h4 # r' \<Rightarrow>
                    (case (hex_val h1, hex_val h2, hex_val h3, hex_val h4) of
                       (Some a, Some b, Some c', Some d) \<Rightarrow>
                         map_option (\<lambda>(s, t). (char_of (4096 * a + 256 * b + 16 * c' + d) # s, t))
                           (lex_string r')
                     | _ \<Rightarrow> None)
                | _ \<Rightarrow> None)
             else
               (case unescape e of
                  None \<Rightarrow> None
                | Some x \<Rightarrow> map_option (\<lambda>(s, t). (x # s, t)) (lex_string r))))
      else if (of_char c :: nat) < 32 then None
      else map_option (\<lambda>(s, t). (c # s, t)) (lex_string cs))"

text \<open>Strips the factors of ten from a mantissa, so that equal decimals are equal terms.\<close>

function norm_dec :: "int \<Rightarrow> int \<Rightarrow> int \<times> int" where
  "norm_dec m e =
     (if m = 0 then (0, 0)
      else if m mod 10 = 0 then norm_dec (m div 10) (e + 1)
      else (m, e))"
  by pat_completeness auto
termination
  by (relation "measure (\<lambda>(m, e). nat \<bar>m\<bar>)") auto

declare norm_dec.simps [simp del]

definition lex_fraction :: "string \<Rightarrow> (string \<times> string) option" where
  "lex_fraction s =
     (case s of
        [] \<Rightarrow> Some ([], s)
      | c # r \<Rightarrow>
         (if c = CHR ''.'' then
            (if takeWhile is_digit r = [] then None
             else Some (takeWhile is_digit r, dropWhile is_digit r))
          else Some ([], s)))"

definition lex_exponent :: "string \<Rightarrow> (int \<times> string) option" where
  "lex_exponent s =
     (case s of
        [] \<Rightarrow> Some (0, s)
      | c # r \<Rightarrow>
         (if c = CHR ''e'' \<or> c = CHR ''E'' then
            (let neg = (r \<noteq> [] \<and> hd r = CHR ''-'');
                 r1 = (if r \<noteq> [] \<and> (hd r = CHR ''-'' \<or> hd r = CHR ''+'') then tl r else r)
             in if takeWhile is_digit r1 = [] then None
                else Some ((if neg then - 1 else 1) * int (digits_val (takeWhile is_digit r1)),
                           dropWhile is_digit r1))
          else Some (0, s)))"

text \<open>A number: an optional minus, an integer part that is \<open>0\<close> or starts with a non-zero
  digit, an optional fraction, an optional exponent.\<close>

definition lex_number :: "string \<Rightarrow> ((int \<times> int) \<times> string) option" where
  "lex_number s =
     (let neg = (s \<noteq> [] \<and> hd s = CHR ''-'');
          s1 = (if neg then tl s else s);
          ip = (if s1 \<noteq> [] \<and> hd s1 = CHR ''0'' then [CHR ''0''] else takeWhile is_digit s1);
          s2 = drop (length ip) s1
      in if ip = [] then None
         else
           (case lex_fraction s2 of
              None \<Rightarrow> None
            | Some (fd, s3) \<Rightarrow>
               (case lex_exponent s3 of
                  None \<Rightarrow> None
                | Some (ex, s4) \<Rightarrow>
                    Some (norm_dec ((if neg then - 1 else 1) * int (digits_val (ip @ fd)))
                            (ex - int (length fd)), s4))))"

lemma lex_string_shorter: "lex_string cs = Some (s, r) \<Longrightarrow> length r < length cs"
proof (induction "length cs" arbitrary: cs s r rule: less_induct)
  case less
  show ?case
  proof (cases cs)
    case Nil
    with less.prems show ?thesis by simp
  next
    case (Cons c cs')
    have IH: "\<And>ys s' r'. length ys < length cs \<Longrightarrow> lex_string ys = Some (s', r')
        \<Longrightarrow> length r' < length cs"
      using less.hyps by fastforce
    from less.prems Cons show ?thesis
      by (auto split: if_splits list.splits option.splits prod.splits
          dest!: IH [rotated] simp: Cons)
  qed
qed

lemma lex_fraction_shorter: "lex_fraction s = Some (fd, r) \<Longrightarrow> length r \<le> length s"
  by (auto simp: lex_fraction_def length_dropWhile_le le_SucI split: list.splits if_splits)

lemma lex_exponent_shorter: "lex_exponent s = Some (ex, r) \<Longrightarrow> length r \<le> length s"
proof -
  have tl_le: "\<And>xs :: string. length (dropWhile is_digit (tl xs)) \<le> length xs"
    by (metis diff_le_self le_trans length_dropWhile_le length_tl)
  assume "lex_exponent s = Some (ex, r)"
  then show ?thesis
    by (auto simp: lex_exponent_def Let_def length_dropWhile_le le_SucI tl_le
        split: list.splits if_splits intro: le_trans [OF tl_le])
qed

lemma lex_number_shorter:
  assumes "lex_number s = Some (x, r)"
  shows "length r < length s"
proof -
  define neg where "neg = (s \<noteq> [] \<and> hd s = CHR ''-'')"
  define s1 where "s1 = (if neg then tl s else s)"
  define ip where "ip = (if s1 \<noteq> [] \<and> hd s1 = CHR ''0'' then [CHR ''0''] else takeWhile is_digit s1)"
  define s2 where "s2 = drop (length ip) s1"
  from assms have ne: "ip \<noteq> []"
    by (auto simp: lex_number_def Let_def neg_def s1_def ip_def split: if_splits)
  from assms ne obtain fd s3 ex where f: "lex_fraction s2 = Some (fd, s3)"
    and e: "lex_exponent s3 = Some (ex, r)"
    unfolding lex_number_def Let_def neg_def [symmetric] s1_def [symmetric]
      ip_def [symmetric] s2_def [symmetric]
    by (auto split: option.splits if_splits)
  have "length ip \<le> length s1"
    by (auto simp: ip_def length_takeWhile_le Suc_le_eq)
  with ne have "length s2 < length s1"
    by (cases ip) (auto simp: s2_def)
  moreover have "length s1 \<le> length s"
    by (simp add: s1_def)
  ultimately show ?thesis
    using lex_fraction_shorter [OF f] lex_exponent_shorter [OF e] by linarith
qed

text \<open>The tokens of a text; \<open>None\<close> is a lexical error.\<close>

function lex :: "string \<Rightarrow> token list option" where
  "lex [] = Some []"
| "lex (c # cs) =
     (if is_json_ws c then lex cs
      else if c = CHR ''{'' then map_option ((#) LBrace) (lex cs)
      else if c = CHR ''}'' then map_option ((#) RBrace) (lex cs)
      else if c = CHR ''['' then map_option ((#) LBrack) (lex cs)
      else if c = CHR '']'' then map_option ((#) RBrack) (lex cs)
      else if c = CHR '':'' then map_option ((#) Colon) (lex cs)
      else if c = CHR '','' then map_option ((#) Comma) (lex cs)
      else if c = CHR 0x22 then
        (case lex_string cs of
           None \<Rightarrow> None
         | Some (s, r) \<Rightarrow> map_option ((#) (TStr s)) (lex r))
      else if c = CHR ''-'' \<or> is_digit c then
        (case lex_number (c # cs) of
           None \<Rightarrow> None
         | Some ((m, e), r) \<Rightarrow> map_option ((#) (TNum m e)) (lex r))
      else if take 4 (c # cs) = ''true'' then map_option ((#) TTrue) (lex (drop 3 cs))
      else if take 5 (c # cs) = ''false'' then map_option ((#) TFalse) (lex (drop 4 cs))
      else if take 4 (c # cs) = ''null'' then map_option ((#) TNull) (lex (drop 3 cs))
      else None)"
  by pat_completeness auto
termination
proof (relation "measure length", goal_cases)
  case 1
  then show ?case by simp
next
  case (9 c cs x2 x y)
  then show ?case
    using lex_string_shorter [of cs x y] by simp
next
  case (10 c cs x2 x y xa ya)
  then show ?case
    using lex_number_shorter [of "c # cs" x y] by simp
qed simp_all

declare lex.simps [simp del]

text \<open>Stores a property in an object under construction: a repeated key keeps its place and
  takes the later value, as \<open>CreateDataProperty\<close> does.\<close>

fun set_property :: "string \<Rightarrow> json \<Rightarrow> (string \<times> json) list \<Rightarrow> (string \<times> json) list" where
  "set_property k v [] = [(k, v)]"
| "set_property k v (p # ps) = (if fst p = k then (k, v) # ps else p # set_property k v ps)"

definition build_object :: "(string \<times> json) list \<Rightarrow> (string \<times> json) list" where
  "build_object kvs = foldl (\<lambda>obj (k, v). set_property k v obj) [] kvs"

text \<open>
  The grammar of ECMA-404 by recursive descent over the tokens: a value and the rest of
  the tokens. \<open>parse_elements\<close> reads the elements of an array after its opening bracket
  and \<open>parse_members\<close> the members of an object after its opening brace, each up to the
  closing delimiter. The test on the length in front of each recursive call always
  holds (\<open>parse_value_shorter\<close> below); it is there for the termination proof.
\<close>

function parse_value :: "token list \<Rightarrow> (json \<times> token list) option"
  and parse_elements :: "token list \<Rightarrow> (json list \<times> token list) option"
  and parse_members :: "token list \<Rightarrow> ((string \<times> json) list \<times> token list) option"
where
  "parse_value [] = None"
| "parse_value (t # r) =
     (case t of
        TNull \<Rightarrow> Some (JNull, r)
      | TTrue \<Rightarrow> Some (JBool True, r)
      | TFalse \<Rightarrow> Some (JBool False, r)
      | TNum m e \<Rightarrow> Some (JNumber m e, r)
      | TStr s \<Rightarrow> Some (JString s, r)
      | LBrack \<Rightarrow>
          (if r \<noteq> [] \<and> hd r = RBrack then Some (JArray [], tl r)
           else map_option (\<lambda>(vs, r'). (JArray vs, r')) (parse_elements r))
      | LBrace \<Rightarrow>
          (if r \<noteq> [] \<and> hd r = RBrace then Some (JObject [], tl r)
           else map_option (\<lambda>(kvs, r'). (JObject (build_object kvs), r')) (parse_members r))
      | _ \<Rightarrow> None)"
| "parse_elements ts =
     (case parse_value ts of
        None \<Rightarrow> None
      | Some (v, r) \<Rightarrow>
         (case r of
            [] \<Rightarrow> None
          | t # r' \<Rightarrow>
             (if t = RBrack then Some ([v], r')
              else if t = Comma \<and> length r' < length ts
                then map_option (\<lambda>(vs, r''). (v # vs, r'')) (parse_elements r')
              else None)))"
| "parse_members ts =
     (case ts of
        TStr k # Colon # r \<Rightarrow>
          (case parse_value r of
             None \<Rightarrow> None
           | Some (v, r1) \<Rightarrow>
              (case r1 of
                 [] \<Rightarrow> None
               | t # r2 \<Rightarrow>
                  (if t = RBrace then Some ([(k, v)], r2)
                   else if t = Comma \<and> length r2 < length ts
                     then map_option (\<lambda>(kvs, r3). ((k, v) # kvs, r3)) (parse_members r2)
                   else None)))
      | _ \<Rightarrow> None)"
  by pat_completeness auto
termination
  by (relation "measure (\<lambda>x. case x of
          Inl ts \<Rightarrow> 2 * length ts
        | Inr (Inl ts) \<Rightarrow> 2 * length ts + 1
        | Inr (Inr ts) \<Rightarrow> 2 * length ts + 1)") auto

declare parse_value.simps [simp del] parse_elements.simps [simp del] parse_members.simps [simp del]

text \<open>The message of the \<open>SyntaxError\<close> that \<open>JSON.parse\<close> throws is left to the
  implementation by ECMA-262. The model fixes one text; no theorem depends on it.\<close>

definition syntax_error_message :: "string \<Rightarrow> string" where
  "syntax_error_message text = ''Unexpected token in JSON''"

text \<open>\<open>JSON.parse(text)\<close>: the value of the text, or the message of the \<open>SyntaxError\<close>
  thrown. The whole text has to be one value, white space around it apart.\<close>

definition JSON_parse :: "string \<Rightarrow> string + json" where
  "JSON_parse text =
     (case lex text of
        None \<Rightarrow> Inl (syntax_error_message text)
      | Some ts \<Rightarrow>
         (case parse_value ts of
            None \<Rightarrow> Inl (syntax_error_message text)
          | Some (v, r) \<Rightarrow> if r = [] then Inr v else Inl (syntax_error_message text)))"

section \<open>Regular expressions and \<open>String.prototype.match\<close>\<close>

text \<open>The regular expressions of \<open>extractJson\<close> use a character, a negated character class,
  sequence, alternative and the greedy star.\<close>

datatype regex =
    Lit char
  | NotIn "char list"
  | Seq regex regex
  | Alt regex regex
  | Star regex

text \<open>
  The backtracking matcher of ECMA-262: \<open>rmatch r s\<close> lists, in the order in which
  backtracking tries them, the rests of \<open>s\<close> after each way of matching \<open>r\<close> at the
  start of \<open>s\<close>. The match the engine reports is the first of the list. An alternative
  tries its left side first; a star first tries one more round and then none, and
  rejects a round that consumes nothing.
\<close>

function rmatch :: "regex \<Rightarrow> string \<Rightarrow> string list" where
  "rmatch (Lit c) s = (case s of [] \<Rightarrow> [] | x # xs \<Rightarrow> if x = c then [xs] else [])"
| "rmatch (NotIn cs) s = (case s of [] \<Rightarrow> [] | x # xs \<Rightarrow> if x \<in> set cs then [] else [xs])"
| "rmatch (Seq a b) s = concat (map (rmatch b) (rmatch a s))"
| "rmatch (Alt a b) s = rmatch a s @ rmatch b s"
| "rmatch (Star a) s =
     concat (map (\<lambda>s'. if length s' < length s then rmatch (Star a) s' else []) (rmatch a s)) @ [s]"
  by pat_completeness auto
termination
  by (relation "measures [\<lambda>(r, s). size r, \<lambda>(r, s). length s]") auto

declare rmatch.simps(5) [simp del]

text \<open>
  \<open>/\{(?:[^{}]|(?:\{(?:[^{}]|(?:\{[^{}]*\}))*\}))*\}/g\<close> and
  \<open>/\[(?:[^[\]]|(?:\[(?:[^[\]]|(?:\[[^[\]]*\]))*\]))*\]/g\<close>: the two expressions differ
  in the pair of delimiters only.
\<close>

definition bracket_pattern :: "char \<Rightarrow> char \<Rightarrow> regex" where
  "bracket_pattern opn cls =
     Seq (Lit opn)
       (Seq (Star (Alt (NotIn [opn, cls])
                       (Seq (Lit opn)
                         (Seq (Star (Alt (NotIn [opn, cls])
                                         (Seq (Lit opn) (Seq (Star (NotIn [opn, cls])) (Lit cls)))))
                              (Lit cls)))))
            (Lit cls))"

definition object_pattern :: regex where
  "object_pattern = bracket_pattern (CHR ''{'') (CHR ''}'')"

definition array_pattern :: regex where
  "array_pattern = bracket_pattern (CHR ''['') (CHR '']'')"

definition jsonPatterns :: "regex list" where
  "jsonPatterns = [object_pattern, array_pattern]"

text \<open>
  The matches of a global expression, each with its start offset: the expression is tried
  at \<open>lastIndex\<close>, then one code unit further until it matches; after a match the
  search goes on at the end of the match (one further after an empty match).
  \<open>match_from r i s\<close> searches the rest \<open>s\<close> of the text that starts at offset \<open>i\<close>.
\<close>

function match_from :: "regex \<Rightarrow> nat \<Rightarrow> string \<Rightarrow> (nat \<times> string) list" where
  "match_from r i s =
     (case rmatch r s of
        [] \<Rightarrow> (case s of [] \<Rightarrow> [] | x # xs \<Rightarrow> match_from r (i + 1) xs)
      | rest # other \<Rightarrow>
         (let n = length s - length rest in
          (i, take n s) #
            (if n = 0 then (case s of [] \<Rightarrow> [] | x # xs \<Rightarrow> match_from r (i + 1) xs)
             else match_from r (i + n) (drop n s))))"
  by pat_completeness auto
termination
  by (relation "measure (\<lambda>(r, i, s). length s)") auto

declare match_from.simps [simp del]

text \<open>
  ECMA-262 sets no bound on the work of a search, but an engine runs the backtracking on a
  stack of bounded size and throws a \<open>RangeError\<close> when the stack is exhausted. The model
  counts one frame for every round of a star that is in progress, the place the search
  comes back to when what follows the round fails: \<open>frames r s\<close> is the largest number of
  frames that the search for \<open>r\<close> at the start of \<open>s\<close> holds at once.
\<close>

fun max_list :: "nat list \<Rightarrow> nat" where
  "max_list [] = 0"
| "max_list (n # ns) = max n (max_list ns)"

function frames :: "regex \<Rightarrow> string \<Rightarrow> nat" where
  "frames (Lit c) s = 0"
| "frames (NotIn cs) s = 0"
| "frames (Seq a b) s = max (frames a s) (max_list (map (frames b) (rmatch a s)))"
| "frames (Alt a b) s = max (frames a s) (frames b s)"
| "frames (Star a) s =
     max (frames a s)
       (max_list (map (\<lambda>s'. if length s' < length s then Suc (frames (Star a) s') else 0)
          (rmatch a s)))"
  by pat_completeness auto
termination
  by (relation "measures [\<lambda>(r, s). size r, \<lambda>(r, s). length s]") auto

declare frames.simps(5) [simp del]

text \<open>The frames that the search for all matches of a global expression needs: the largest
  number over the places at which \<open>match_from\<close> tries the expression.\<close>

function stack_use :: "regex \<Rightarrow> string \<Rightarrow> nat" where
  "stack_use r s =
     max (frames r s)
       (case rmatch r s of
          [] \<Rightarrow> (case s of [] \<Rightarrow> 0 | x # xs \<Rightarrow> stack_use r xs)
        | rest # other \<Rightarrow>
           (let n = length s - length rest in
            if n = 0 then (case s of [] \<Rightarrow> 0 | x # xs \<Rightarrow> stack_use r xs)
            else stack_use r (drop n s)))"
  by pat_completeness auto
termination
  by (relation "measure (\<lambda>(r, s). length s)") auto

declare stack_use.simps [simp del]

text \<open>
  The errors that leave the two functions: the \<open>Error\<close> of the size guard and the
  \<open>RangeError\<close> of the engine.
\<close>

datatype error = SizeLimitExceeded | RangeError

text \<open>\<open>text.match(pattern)\<close> for a global pattern, on an engine whose stack holds \<open>stack\<close>
  frames: the matched strings, from left to right, or the \<open>RangeError\<close> of a search that
  needs more frames. The size of the stack is the engine's, so it is a parameter of the
  model. JavaScript returns \<open>null\<close> for no match; the model returns the empty list.\<close>

definition match_js :: "nat \<Rightarrow> string \<Rightarrow> regex \<Rightarrow> error + string list" where
  "match_js stack text pattern =
     (if stack < stack_use pattern text then Inl RangeError
      else Inr (map snd (match_from pattern 0 text)))"

section \<open>\<open>extractJson\<close>\<close>

text \<open>The loop over the matches of one pattern. The state is \<open>(largestMatch, largestParsed)\<close>;
  a match that is not longer than \<open>largestMatch\<close> is skipped, one that \<open>JSON.parse\<close> rejects
  is passed over in the \<open>catch\<close>.\<close>

fun try_matches :: "string list \<Rightarrow> string \<times> json \<Rightarrow> string \<times> json" where
  "try_matches [] st = st"
| "try_matches (m # ms) (largestMatch, largestParsed) =
     (if length m \<le> length largestMatch then try_matches ms (largestMatch, largestParsed)
      else
        (case JSON_parse m of
           Inr parsed \<Rightarrow> try_matches ms (m, parsed)
         | Inl e \<Rightarrow> try_matches ms (largestMatch, largestParsed)))"

text \<open>The loop over the patterns. \<open>text.match\<close> stands outside every \<open>try\<close>: its error
  ends the loop and the function.\<close>

fun try_patterns ::
  "nat \<Rightarrow> regex list \<Rightarrow> string \<Rightarrow> string \<times> json \<Rightarrow> error + (string \<times> json)" where
  "try_patterns stack [] text st = Inr st"
| "try_patterns stack (pattern # patterns) text st =
     (case match_js stack text pattern of
        Inl err \<Rightarrow> Inl err
      | Inr matches \<Rightarrow>
         if matches \<noteq> [] then try_patterns stack patterns text (try_matches matches st)
         else try_patterns stack patterns text st)"

text \<open>\<open>extractJson(text)\<close> on an engine whose stack holds \<open>stack\<close> frames: \<open>Inl\<close> is the
  error thrown, \<open>Inr\<close> the value returned.\<close>

definition extractJson :: "nat \<Rightarrow> string \<Rightarrow> error + json" where
  "extractJson stack text =
     (if trim text = [] then Inr JNull
      else if length text > 10000000 then Inl SizeLimitExceeded
      else
        (case JSON_parse text of
           Inr v \<Rightarrow> Inr v
         | Inl e \<Rightarrow>
            (case try_patterns stack jsonPatterns text ([], JNull) of
               Inl err \<Rightarrow> Inl err
             | Inr (largestMatch, largestParsed) \<Rightarrow> Inr largestParsed)))"

section \<open>\<open>findJsonFragments\<close>\<close>

datatype fault = Mismatched | ControlCharacter

text \<open>
  One round of the loop over the characters of a line in the first pass. \<open>prevChar\<close> is
  the character before \<open>char\<close>, the empty string at the start of the line. The stack of
  open brackets has its top at the head, and popping the empty stack gives \<open>undefined\<close>,
  which is no bracket. The result is the new \<open>inString\<close> and \<open>bracketStack\<close> and the
  fault at which the source leaves the loop with \<open>break\<close>, if any.
\<close>

definition scan_char :: "string \<Rightarrow> char \<Rightarrow> bool \<Rightarrow> string \<Rightarrow> bool \<times> string \<times> fault option" where
  "scan_char prevChar char inString bracketStack =
     (let inString1 = (if char = CHR 0x22 \<and> prevChar \<noteq> [CHR 0x5C] then \<not> inString else inString);
          opens = (\<not> inString1 \<and> (char = CHR ''{'' \<or> char = CHR ''[''));
          closes = (\<not> inString1 \<and> \<not> opens \<and> (char = CHR ''}'' \<or> char = CHR '']''));
          stack1 = (if opens then char # bracketStack
                    else if closes then tl bracketStack
                    else bracketStack)
      in if closes \<and>
            ((char = CHR ''}'' \<and> (bracketStack = [] \<or> hd bracketStack \<noteq> CHR ''{'')) \<or>
             (char = CHR '']'' \<and> (bracketStack = [] \<or> hd bracketStack \<noteq> CHR ''['')))
         then (inString1, stack1, Some Mismatched)
         else if inString1 \<and> (of_char char :: nat) < 32 \<and> char \<noteq> CHR 0x09
         then (inString1, stack1, Some ControlCharacter)
         else (inString1, stack1, None))"

text \<open>The loop over the characters of a line: it ends at the end of the line or at the first
  fault.\<close>

fun scan_chars :: "string \<Rightarrow> string \<Rightarrow> bool \<Rightarrow> string \<Rightarrow> bool \<times> string \<times> fault option" where
  "scan_chars prevChar [] inString bracketStack = (inString, bracketStack, None)"
| "scan_chars prevChar (char # rest) inString bracketStack =
     (case scan_char prevChar char inString bracketStack of
        (inString1, stack1, Some flt) \<Rightarrow> (inString1, stack1, Some flt)
      | (inString1, stack1, None) \<Rightarrow> scan_chars [char] rest inString1 stack1)"

record scan_state =
  inString :: bool
  bracketStack :: string
  currentLine :: string
  warnings :: "string list"
  corruptLineNumbers :: "nat list"

text \<open>The text that the first pass hands to \<open>JSON.parse\<close> for a line: the lines accepted so
  far and the line, inside the outer pair of brackets.\<close>

definition testJson :: "bool \<Rightarrow> string \<Rightarrow> string \<Rightarrow> string" where
  "testJson isObject cur line =
     (if isObject then ''{'' @ cur @ (if cur \<noteq> [] then '','' else []) @ line @ ''}''
      else ''['' @ cur @ (if cur \<noteq> [] then '','' else []) @ line @ '']'')"

text \<open>One line of the first pass; \<open>n\<close> is its number. A string that is still open at the
  end of the line marks the line, and \<open>inString\<close> is reset for the next line.\<close>

definition classify_line :: "bool \<Rightarrow> nat \<Rightarrow> string \<Rightarrow> scan_state \<Rightarrow> scan_state" where
  "classify_line isObject n line st =
     (let (inS, stack, flt) = scan_chars [] line (inString st) (bracketStack st);
          w1 = warnings st @
                 (case flt of
                    None \<Rightarrow> []
                  | Some Mismatched \<Rightarrow> [''Mismatched brackets at line '' @ show_nat n]
                  | Some ControlCharacter \<Rightarrow> [''Invalid control character at line '' @ show_nat n]);
          w2 = w1 @ (if inS then [''Unclosed string at line '' @ show_nat n] else []);
          parses = (case JSON_parse (testJson isObject (currentLine st) line) of
                      Inr v \<Rightarrow> True | Inl e \<Rightarrow> False);
          suspect = (\<not> parses \<and> includes_js line (CHR '':'') \<and>
                     (includes_js line (CHR ''{'') \<or> includes_js line (CHR ''}'') \<or>
                      includes_js line (CHR ''['') \<or> includes_js line (CHR '']'')));
          w3 = w2 @ (if suspect then [''Potentially corrupt JSON at line '' @ show_nat n] else []);
          isCorruptLine = (flt \<noteq> None \<or> inS \<or> suspect)
      in \<lparr> inString = (if inS then False else inS),
           bracketStack = stack,
           currentLine = (if parses
              then currentLine st @ (if currentLine st \<noteq> [] then '','' else []) @ line
              else currentLine st),
           warnings = w3,
           corruptLineNumbers = corruptLineNumbers st @ (if isCorruptLine then [n] else []) \<rparr>)"

text \<open>The first pass; \<open>lineNumber\<close> is the number of the line before the first of \<open>lines\<close>.\<close>

fun first_pass :: "bool \<Rightarrow> nat \<Rightarrow> string list \<Rightarrow> scan_state \<Rightarrow> scan_state" where
  "first_pass isObject lineNumber [] st = st"
| "first_pass isObject lineNumber (line # lines) st =
     first_pass isObject (lineNumber + 1) lines (classify_line isObject (lineNumber + 1) line st)"

text \<open>What the second pass appends for one line; \<open>nlines\<close> is \<open>lines.length\<close>.\<close>

definition rebuilt_line :: "bool \<Rightarrow> nat list \<Rightarrow> nat \<Rightarrow> bool \<Rightarrow> nat \<Rightarrow> string \<Rightarrow> string" where
  "rebuilt_line isObject corrupt nlines isFirstLine n line =
     (if n \<in> set corrupt
      then ''  '' @
           (if isObject then [CHR 0x22] @ ''__corrupt_line_'' @ show_nat n @ [CHR 0x22] @ '': null''
            else ''null'') @
           (if isFirstLine then [] else '','') @ [CHR 0x0A]
      else ''  '' @ trim line @ (if isFirstLine \<or> n = nlines then [] else '','') @ [CHR 0x0A])"

fun second_pass ::
  "bool \<Rightarrow> nat list \<Rightarrow> nat \<Rightarrow> bool \<Rightarrow> nat \<Rightarrow> string list \<Rightarrow> string \<Rightarrow> string" where
  "second_pass isObject corrupt nlines isFirstLine lineNumber [] reconstructed = reconstructed"
| "second_pass isObject corrupt nlines isFirstLine lineNumber (line # lines) reconstructed =
     second_pass isObject corrupt nlines False (lineNumber + 1) lines
       (reconstructed @ rebuilt_line isObject corrupt nlines isFirstLine (lineNumber + 1) line)"

definition reconstruct :: "bool \<Rightarrow> bool \<Rightarrow> nat list \<Rightarrow> string list \<Rightarrow> string" where
  "reconstruct isObject isArray corrupt lines =
     second_pass isObject corrupt (length lines) True 0 lines
       (if isObject then ''{'' @ [CHR 0x0A] else if isArray then ''['' @ [CHR 0x0A] else [])
     @ (if isObject then ''}'' else if isArray then '']'' else [])"

text \<open>\<open>if (extracted)\<close>: the truthiness of a JSON value.\<close>

fun truthy :: "json \<Rightarrow> bool" where
  "truthy JNull = False"
| "truthy (JBool b) = b"
| "truthy (JNumber m e) = (m \<noteq> 0)"
| "truthy (JString s) = (s \<noteq> [])"
| "truthy (JArray vs) = True"
| "truthy (JObject kvs) = True"

definition initial_state :: "string list \<Rightarrow> scan_state" where
  "initial_state ws =
     \<lparr> inString = False, bracketStack = [], currentLine = [], warnings = ws,
       corruptLineNumbers = [] \<rparr>"

text \<open>The values that the recovery computes from a text that \<open>JSON.parse\<close> has rejected
  with message \<open>msg\<close>: the shape of the trimmed text, the state after the first pass, and
  the text that the second pass builds.\<close>

definition isObject :: "string \<Rightarrow> bool" where
  "isObject text = (startsWith (trim text) ''{'' \<and> endsWith (trim text) ''}'')"

definition isArray :: "string \<Rightarrow> bool" where
  "isArray text = (startsWith (trim text) ''['' \<and> endsWith (trim text) '']'')"

definition classified :: "string \<Rightarrow> string \<Rightarrow> scan_state" where
  "classified text msg =
     first_pass (isObject text) 0 (split_lines text) (initial_state [''Invalid JSON: '' @ msg])"

definition reconstructed :: "string \<Rightarrow> string \<Rightarrow> string" where
  "reconstructed text msg =
     reconstruct (isObject text) (isArray text) (corruptLineNumbers (classified text msg))
       (split_lines text)"

definition recover :: "nat \<Rightarrow> string \<Rightarrow> string \<Rightarrow> error + (json \<times> string list)" where
  "recover stack text msg =
     (if \<not> isObject text \<and> \<not> isArray text then
        (case extractJson stack text of
           Inl err \<Rightarrow> Inl err
         | Inr v \<Rightarrow> Inr (v, [''Invalid JSON: '' @ msg] @ [''Could not determine JSON structure'']))
      else
        (case JSON_parse (reconstructed text msg) of
           Inr result \<Rightarrow> Inr (result, warnings (classified text msg))
         | Inl e \<Rightarrow>
            (case extractJson stack text of
               Inl err \<Rightarrow> Inl err
             | Inr extracted \<Rightarrow>
                if truthy extracted
                then Inr (extracted,
                       warnings (classified text msg) @
                         [''Reconstruction failed, using largest valid fragment''])
                else Inr (JNull,
                       warnings (classified text msg) @ [''Could not recover any valid JSON'']))))"

text \<open>\<open>findJsonFragments(text)\<close> on an engine whose stack holds \<open>stack\<close> frames: \<open>Inl\<close> is
  the error thrown, \<open>Inr (result, warnings)\<close> the
  object returned.\<close>

definition findJsonFragments :: "nat \<Rightarrow> string \<Rightarrow> error + (json \<times> string list)" where
  "findJsonFragments stack text =
     (if trim text = [] then Inr (JNull, [])
      else if length text > 10000000 then Inl SizeLimitExceeded
      else
        (case JSON_parse text of
           Inr parsed \<Rightarrow> Inr (parsed, [])
         | Inl msg \<Rightarrow> recover stack text msg))"

section \<open>\<open>safeStringify\<close>\<close>

type_synonym addr = nat

text \<open>
  The values \<open>safeStringify\<close> is given are object graphs: arrays and objects are reached
  through references, so that two places can hold the same array or object and a
  structure can contain itself. A heap lists the arrays and objects by address; an
  address that the list does not hold stands for an object without properties. The model
  covers the graphs made of \<open>null\<close>, booleans, finite numbers, strings, arrays and plain
  objects.
\<close>

datatype jsval = VNull | VBool bool | VNumber int int | VString string | VRef addr

datatype node = ArrayNode "jsval list" | ObjectNode "(string \<times> jsval) list"

type_synonym heap = "(addr \<times> node) list"

definition lookup :: "heap \<Rightarrow> addr \<Rightarrow> node" where
  "lookup h a = (case map_of h a of Some nd \<Rightarrow> nd | None \<Rightarrow> ObjectNode [])"

definition hex_char :: "nat \<Rightarrow> char" where
  "hex_char d = (if d < 10 then char_of (48 + d) else char_of (87 + d))"

text \<open>
  \<open>QuoteJSONString\<close> of ECMA-262: the string in double quotes, with the quote, the
  backslash and the control characters escaped.
\<close>

definition escape_char :: "char \<Rightarrow> string" where
  "escape_char c =
     (if c = CHR 0x22 then [CHR 0x5C, CHR 0x22]
      else if c = CHR 0x5C then [CHR 0x5C, CHR 0x5C]
      else if c = CHR 0x08 then [CHR 0x5C, CHR ''b'']
      else if c = CHR 0x0C then [CHR 0x5C, CHR ''f'']
      else if c = CHR 0x0A then [CHR 0x5C, CHR ''n'']
      else if c = CHR 0x0D then [CHR 0x5C, CHR ''r'']
      else if c = CHR 0x09 then [CHR 0x5C, CHR ''t'']
      else if (of_char c :: nat) < 32
        then [CHR 0x5C, CHR ''u'', CHR ''0'', CHR ''0'',
              hex_char ((of_char c :: nat) div 16), hex_char ((of_char c :: nat) mod 16)]
      else [c])"

definition QuoteJSONString :: "string \<Rightarrow> string" where
  "QuoteJSONString s = [CHR 0x22] @ concat (map escape_char s) @ [CHR 0x22]"

text \<open>
  \<open>Number::toString\<close> for the decimal \<open>m * 10 ^ e\<close> with \<open>m\<close> not divisible by ten: with
  \<open>k\<close> digits and the decimal point after the \<open>n\<close>-th digit, plain notation for
  \<open>-6 < n \<le> 21\<close> and exponential notation otherwise.
\<close>

definition number_to_string :: "int \<Rightarrow> int \<Rightarrow> string" where
  "number_to_string m e =
     (if m = 0 then ''0''
      else
        (let ds = show_nat (nat \<bar>m\<bar>); k = int (length ds); n = k + e in
         (if m < 0 then ''-'' else []) @
         (if k \<le> n \<and> n \<le> 21 then ds @ replicate (nat (n - k)) (CHR ''0'')
          else if 0 < n \<and> n \<le> 21 then take (nat n) ds @ ''.'' @ drop (nat n) ds
          else if - 6 < n \<and> n \<le> 0 then ''0.'' @ replicate (nat (- n)) (CHR ''0'') @ ds
          else (if k = 1 then ds else take 1 ds @ ''.'' @ drop 1 ds) @ ''e'' @
               (if 0 \<le> n - 1 then ''+'' else ''-'') @ show_nat (nat \<bar>n - 1\<bar>))))"

text \<open>
  The replacer function of \<open>safeStringify\<close>, with the set \<open>seen\<close> passed in and out: an
  array or object that is in the set is replaced by the sentinel string, any other is
  added to the set and kept; other values are kept.
\<close>

definition replacer :: "addr set \<Rightarrow> jsval \<Rightarrow> jsval \<times> addr set" where
  "replacer seen v =
     (case v of
        VRef a \<Rightarrow> if a \<in> seen then (VString ''[Circular Reference]'', seen) else (v, insert a seen)
      | _ \<Rightarrow> (v, seen))"

fun join :: "string \<Rightarrow> string list \<Rightarrow> string" where
  "join sep [] = []"
| "join sep [p] = p"
| "join sep (p # q # ps) = p @ sep @ join sep (q # ps)"

text \<open>
  The text of an array or object from the texts of its parts, as \<open>SerializeJSONArray\<close> and
  \<open>SerializeJSONObject\<close> put it together; \<open>stepback\<close> is the indentation outside.
\<close>

definition wrap :: "string \<Rightarrow> string \<Rightarrow> string \<Rightarrow> string \<Rightarrow> string list \<Rightarrow> string" where
  "wrap opn cls gap stepback partial =
     (if partial = [] then opn @ cls
      else if gap = [] then opn @ join '','' partial @ cls
      else opn @ [CHR 0x0A] @ (stepback @ gap) @
           join ('','' @ [CHR 0x0A] @ (stepback @ gap)) partial @
           [CHR 0x0A] @ stepback @ cls)"

text \<open>
  \<open>JSON.stringify\<close> with a replacer function, after ECMA-262. \<open>SerializeJSONProperty\<close>
  passes the value through the replacer and serializes the result; for an array or object
  it throws a \<open>TypeError\<close> when the value is on the stack of the values being
  serialized, and otherwise serializes the elements or properties one level deeper.
  The recursion is as deep as the nesting of the value. The first argument bounds this
  depth: a run that would go deeper ends as \<open>OutOfFuel\<close>.
\<close>

datatype js_error = CyclicStructure

datatype 'a run = OutOfFuel | Throws js_error | Returns 'a

definition and_then :: "'a run \<Rightarrow> ('a \<Rightarrow> 'b run) \<Rightarrow> 'b run" where
  "and_then r f = (case r of Returns x \<Rightarrow> f x | Throws err \<Rightarrow> Throws err | OutOfFuel \<Rightarrow> OutOfFuel)"

definition scalar_text :: "jsval \<Rightarrow> string" where
  "scalar_text v =
     (case v of
        VNull \<Rightarrow> ''null''
      | VBool b \<Rightarrow> (if b then ''true'' else ''false'')
      | VNumber m e \<Rightarrow> number_to_string m e
      | VString s \<Rightarrow> QuoteJSONString s
      | VRef a \<Rightarrow> [])"

definition ref_of :: "jsval \<Rightarrow> addr option" where
  "ref_of v = (case v of VRef a \<Rightarrow> Some a | _ \<Rightarrow> None)"

function SerializeJSONProperty ::
    "nat \<Rightarrow> heap \<Rightarrow> string \<Rightarrow> string \<Rightarrow> addr list \<Rightarrow> addr set \<Rightarrow> jsval \<Rightarrow> (string \<times> addr set) run"
  and SerializeJSONArray ::
    "nat \<Rightarrow> heap \<Rightarrow> string \<Rightarrow> string \<Rightarrow> addr list \<Rightarrow> addr set \<Rightarrow> jsval list \<Rightarrow> (string list \<times> addr set) run"
  and SerializeJSONObject ::
    "nat \<Rightarrow> heap \<Rightarrow> string \<Rightarrow> string \<Rightarrow> addr list \<Rightarrow> addr set \<Rightarrow> (string \<times> jsval) list \<Rightarrow> (string list \<times> addr set) run"
where
  "SerializeJSONProperty 0 h gap indent stack seen v = OutOfFuel"
| "SerializeJSONProperty (Suc n) h gap indent stack seen v =
     (case ref_of (fst (replacer seen v)) of
        None \<Rightarrow> Returns (scalar_text (fst (replacer seen v)), snd (replacer seen v))
      | Some a \<Rightarrow>
          if a \<in> set stack then Throws CyclicStructure
          else
            (case lookup h a of
               ArrayNode vs \<Rightarrow>
                 and_then
                   (SerializeJSONArray n h gap (indent @ gap) (a # stack) (snd (replacer seen v)) vs)
                   (\<lambda>r. Returns (wrap ''['' '']'' gap indent (fst r), snd r))
             | ObjectNode kvs \<Rightarrow>
                 and_then
                   (SerializeJSONObject n h gap (indent @ gap) (a # stack) (snd (replacer seen v)) kvs)
                   (\<lambda>r. Returns (wrap ''{'' ''}'' gap indent (fst r), snd r))))"
| "SerializeJSONArray n h gap indent stack seen [] = Returns ([], seen)"
| "SerializeJSONArray n h gap indent stack seen (v # vs) =
     and_then (SerializeJSONProperty n h gap indent stack seen v)
       (\<lambda>r1. and_then (SerializeJSONArray n h gap indent stack (snd r1) vs)
          (\<lambda>r2. Returns (fst r1 # fst r2, snd r2)))"
| "SerializeJSONObject n h gap indent stack seen [] = Returns ([], seen)"
| "SerializeJSONObject n h gap indent stack seen (kv # kvs) =
     and_then (SerializeJSONProperty n h gap indent stack seen (snd kv))
       (\<lambda>r1. and_then (SerializeJSONObject n h gap indent stack (snd r1) kvs)
          (\<lambda>r2. Returns ((QuoteJSONString (fst kv) @ '':'' @ (if gap \<noteq> [] then '' '' else []) @ fst r1)
                          # fst r2, snd r2)))"
  by pat_completeness auto
termination
  by (relation "measures
        [\<lambda>x. case x of
            Inl (n, h, gap, indent, stack, seen, v) \<Rightarrow> n
          | Inr (Inl (n, h, gap, indent, stack, seen, vs)) \<Rightarrow> n
          | Inr (Inr (n, h, gap, indent, stack, seen, kvs)) \<Rightarrow> n,
         \<lambda>x. case x of
            Inl (n, h, gap, indent, stack, seen, v) \<Rightarrow> 0
          | Inr (Inl (n, h, gap, indent, stack, seen, vs)) \<Rightarrow> Suc (length vs)
          | Inr (Inr (n, h, gap, indent, stack, seen, kvs)) \<Rightarrow> Suc (length kvs)]") auto

text \<open>
  \<open>safeStringify(obj, indent)\<close> with a bound on the depth of the recursion: the set \<open>seen\<close>
  is new and empty for each call, and the gap is \<open>indent\<close> spaces, ten at most.
\<close>

definition safeStringify :: "nat \<Rightarrow> heap \<Rightarrow> jsval \<Rightarrow> nat \<Rightarrow> string run" where
  "safeStringify fuel h obj indent =
     and_then (SerializeJSONProperty fuel h (replicate (min 10 indent) (CHR '' '')) [] [] {} obj)
       (\<lambda>r. Returns (fst r))"

section \<open>Notions of the statements and proofs\<close>

text \<open>The candidates: the matches of the two patterns in the order in which the loops of
  \<open>extractJson\<close> visit them, those of the object pattern first.\<close>

definition candidates :: "string \<Rightarrow> string list" where
  "candidates text = concat (map (\<lambda>pattern. map snd (match_from pattern 0 text)) jsonPatterns)"

text \<open>The frames that the two searches of \<open>extractJson\<close> need on a text.\<close>

definition stack_needed :: "string \<Rightarrow> nat" where
  "stack_needed text = max (stack_use object_pattern text) (stack_use array_pattern text)"


text \<open>A text passes strict parsing when \<open>JSON.parse\<close> returns a value for it.\<close>

definition parses :: "string \<Rightarrow> bool" where
  "parses s = (case JSON_parse s of Inr v \<Rightarrow> True | Inl e \<Rightarrow> False)"

text \<open>
  A depth-counting walk for comparison with the two patterns. \<open>depth_walk opn cls d s\<close>
  reads \<open>s\<close> with \<open>d\<close> brackets of the kind \<open>opn\<close> open beyond the first one and gives the
  rest of \<open>s\<close> after the closing bracket of the first. It gives up at the end of the text
  and at an opening bracket on the third level, and it counts every bracket, inside a
  string literal as well as outside.
\<close>

fun depth_walk :: "char \<Rightarrow> char \<Rightarrow> nat \<Rightarrow> string \<Rightarrow> string option" where
  "depth_walk opn cls d [] = None"
| "depth_walk opn cls d (x # xs) =
     (if x = cls then (if d = 0 then Some xs else depth_walk opn cls (d - 1) xs)
      else if x = opn then (if d < 2 then depth_walk opn cls (d + 1) xs else None)
      else depth_walk opn cls d xs)"

lemma depth_walk_suffix:
  "depth_walk opn cls d xs = Some r \<Longrightarrow> \<exists>w. xs = w @ r \<and> w \<noteq> []"
proof (induction xs arbitrary: d)
  case Nil
  then show ?case by simp
next
  case (Cons x xs)
  from Cons.prems have "r = xs \<or> (\<exists>d'. depth_walk opn cls d' xs = Some r)"
    by (auto split: if_splits)
  then show ?case
  proof
    assume "r = xs"
    then have "x # xs = [x] @ r \<and> [x] \<noteq> []" by simp
    then show ?thesis by blast
  next
    assume "\<exists>d'. depth_walk opn cls d' xs = Some r"
    then obtain d' where "depth_walk opn cls d' xs = Some r" ..
    from Cons.IH [OF this] obtain w where "xs = w @ r" by blast
    then have "x # xs = (x # w) @ r \<and> x # w \<noteq> []" by simp
    then show ?thesis by blast
  qed
qed

lemma depth_walk_shorter: "depth_walk opn cls d xs = Some r \<Longrightarrow> length r < length xs"
  using depth_walk_suffix [of opn cls d xs r] by (auto simp: length_greater_0_conv)

text \<open>
  The fragments the walk finds from left to right, each with its start offset: at an
  opening bracket that the walk can close, the text up to the closing bracket; the
  search goes on behind it, and one character further where the walk fails.
\<close>

function balanced_fragments :: "char \<Rightarrow> char \<Rightarrow> nat \<Rightarrow> string \<Rightarrow> (nat \<times> string) list" where
  "balanced_fragments opn cls i [] = []"
| "balanced_fragments opn cls i (x # xs) =
     (if x = opn then
        (case depth_walk opn cls 0 xs of
           None \<Rightarrow> balanced_fragments opn cls (i + 1) xs
         | Some rest \<Rightarrow>
            (i, take (length (x # xs) - length rest) (x # xs)) #
              balanced_fragments opn cls (i + (length (x # xs) - length rest)) rest)
      else balanced_fragments opn cls (i + 1) xs)"
  by pat_completeness auto
termination
proof (relation "measure (\<lambda>(opn, cls, i, s). length s)", goal_cases)
  case (3 opn cls i x xs rest)
  then show ?case using depth_walk_shorter [of opn cls 0 xs rest] by simp
qed simp_all

text \<open>
  How the walk and a part of a pattern agree on a text \<open>s\<close>: the part \<open>b\<close>, which stands
  behind an opening bracket on level \<open>d\<close>, has no match exactly when the walk fails, and
  otherwise has one match, whose rest \<open>r\<close> is where the walk goes on one level higher.
\<close>

definition cont :: "char \<Rightarrow> char \<Rightarrow> nat \<Rightarrow> string \<Rightarrow> string option" where
  "cont opn cls d r = (if d = 0 then Some r else depth_walk opn cls (d - 1) r)"

definition agrees :: "char \<Rightarrow> char \<Rightarrow> nat \<Rightarrow> regex \<Rightarrow> string \<Rightarrow> bool" where
  "agrees opn cls d b s \<longleftrightarrow>
     (rmatch b s = [] \<and> depth_walk opn cls d s = None) \<or>
     (\<exists>r. rmatch b s = [r] \<and> length r < length s \<and> depth_walk opn cls d s = cont opn cls d r)"

text \<open>The second scenario of the specification: an object embedded in prose.\<close>

definition scenario2 :: string where
  \<open>scenario2 = ''Here is data: {"x": 5} end.''\<close>


text \<open>
  The third scenario of the specification: an object of three lines whose second line is
  broken.
\<close>

definition scenario3 :: string where
  \<open>scenario3 = ''{"a": 1,'' @ [CHR 0x0A] @ ''BROKEN LINE }'' @ [CHR 0x0A] @ ''"b": 2}''\<close>

text \<open>
  The JSON value that an object graph denotes, read down to a given depth; \<open>None\<close> when
  the graph is deeper.
\<close>

fun tree_of :: "nat \<Rightarrow> heap \<Rightarrow> jsval \<Rightarrow> json option" where
  "tree_of 0 h v = None"
| "tree_of (Suc n) h v =
     (case v of
        VNull \<Rightarrow> Some JNull
      | VBool b \<Rightarrow> Some (JBool b)
      | VNumber m e \<Rightarrow> Some (JNumber m e)
      | VString s \<Rightarrow> Some (JString s)
      | VRef a \<Rightarrow>
         (case lookup h a of
            ArrayNode vs \<Rightarrow> map_option JArray (those (map (tree_of n h) vs))
          | ObjectNode kvs \<Rightarrow>
              map_option JObject
                (those (map (\<lambda>kv. map_option (Pair (fst kv)) (tree_of n h (snd kv))) kvs))))"




definition shared_heap :: heap where
  "shared_heap = [(0, ArrayNode [VRef 1, VRef 1]), (1, ArrayNode [])]"

chapter \<open>Properties\<close>

section \<open>The parser consumes tokens\<close>

text \<open>Every successful parse leaves fewer tokens than it was given, so the tests on the
  length in \<open>parse_elements\<close> and \<open>parse_members\<close> never fail.\<close>

lemma parse_shorter:
  "\<forall>v r. parse_value ts = Some (v, r) \<longrightarrow> length r < length ts"
  "\<forall>vs r. parse_elements ts1 = Some (vs, r) \<longrightarrow> length r < length ts1"
  "\<forall>kvs r. parse_members ts2 = Some (kvs, r) \<longrightarrow> length r < length ts2"
proof (induction ts and ts1 and ts2 rule: parse_value_parse_elements_parse_members.induct)
  case 1
  then show ?case by (simp add: parse_value.simps)
next
  case (2 t r)
  show ?case
  proof (intro allI impI)
    fix v r'
    assume a: "parse_value (t # r) = Some (v, r')"
    show "length r' < length (t # r)"
    proof (cases t)
      case LBrack
      show ?thesis
      proof (cases "r \<noteq> [] \<and> hd r = RBrack")
        case True
        with a LBrack show ?thesis
          by (cases r) (auto simp: parse_value.simps)
      next
        case False
        with a LBrack obtain vs where "parse_elements r = Some (vs, r')"
          by (auto simp: parse_value.simps)
        with "2.IH"(2) [OF LBrack False] show ?thesis by fastforce
      qed
    next
      case LBrace
      show ?thesis
      proof (cases "r \<noteq> [] \<and> hd r = RBrace")
        case True
        with a LBrace show ?thesis
          by (cases r) (auto simp: parse_value.simps)
      next
        case False
        with a LBrace obtain kvs where "parse_members r = Some (kvs, r')"
          by (auto simp: parse_value.simps)
        with "2.IH"(1) [OF LBrace False] show ?thesis by fastforce
      qed
    qed (use a in \<open>auto simp: parse_value.simps\<close>)
  qed
next
  case (3 ts)
  show ?case
  proof (intro allI impI)
    fix vs r
    assume a: "parse_elements ts = Some (vs, r)"
    then obtain v r1 where v: "parse_value ts = Some (v, r1)"
      by (auto simp: parse_elements.simps [of ts] split: option.splits)
    with "3.IH"(1) have l1: "length r1 < length ts" by blast
    from a v obtain t r2 where r1: "r1 = t # r2"
      by (cases r1) (auto simp: parse_elements.simps [of ts])
    show "length r < length ts"
    proof (cases "t = RBrack")
      case True
      with a v r1 l1 show ?thesis
        by (auto simp: parse_elements.simps [of ts])
    next
      case False
      with a v r1 have c: "t = Comma" "length r2 < length ts"
        and "\<exists>vs'. parse_elements r2 = Some (vs', r)"
        by (auto simp: parse_elements.simps [of ts] split: if_splits)
      then obtain vs' where "parse_elements r2 = Some (vs', r)" by blast
      with "3.IH"(2) [OF v refl r1 False conjI [OF c(1) c(2)]] have "length r < length r2"
        by blast
      with c(2) show ?thesis by simp
    qed
  qed
next
  case (4 ts)
  show ?case
  proof (intro allI impI)
    fix kvs r
    assume a: "parse_members ts = Some (kvs, r)"
    then obtain k r0 where ts: "ts = TStr k # Colon # r0"
      by (auto simp: parse_members.simps [of ts] split: list.splits token.splits)
    have unf: "parse_members ts =
      (case parse_value r0 of
         None \<Rightarrow> None
       | Some (v, r1) \<Rightarrow>
          (case r1 of
             [] \<Rightarrow> None
           | t # r2 \<Rightarrow>
              (if t = RBrace then Some ([(k, v)], r2)
               else if t = Comma \<and> length r2 < length ts
                 then map_option (\<lambda>(kvs, r3). ((k, v) # kvs, r3)) (parse_members r2)
               else None)))"
      by (subst parse_members.simps) (simp add: ts)
    from a obtain v r1 where v: "parse_value r0 = Some (v, r1)"
      unfolding unf by (auto split: option.splits)
    with "4.IH"(1) [OF ts refl refl refl] have l1: "length r1 < length r0" by blast
    from a v obtain t r2 where r1: "r1 = t # r2"
      unfolding unf by (cases r1) auto
    show "length r < length ts"
    proof (cases "t = RBrace")
      case True
      with a v r1 l1 ts show ?thesis
        unfolding unf by auto
    next
      case False
      with a v r1 have c: "t = Comma" "length r2 < length ts"
        and "\<exists>kvs'. parse_members r2 = Some (kvs', r)"
        unfolding unf by (auto split: if_splits)
      then obtain kvs' where "parse_members r2 = Some (kvs', r)" by blast
      with "4.IH"(2) [OF ts refl refl refl v refl r1 False conjI [OF c(1) c(2)]]
      have "length r < length r2"
        by blast
      with c(2) show ?thesis by simp
    qed
  qed
qed

lemma parse_value_shorter: "parse_value ts = Some (v, r) \<Longrightarrow> length r < length ts"
  using parse_shorter(1) by blast

section \<open>Blank input and the size limit\<close>

lemma trim_empty_iff: "trim text = [] \<longleftrightarrow> (\<forall>c \<in> set text. is_js_space c)"
proof -
  have a: "trim text = [] \<longleftrightarrow> (\<forall>x \<in> set (dropWhile is_js_space text). is_js_space x)"
    by (simp add: trim_def)
  have b: "(\<forall>x \<in> set (dropWhile is_js_space text). is_js_space x) \<longleftrightarrow>
      dropWhile is_js_space text = []"
  proof (cases "dropWhile is_js_space text")
    case Nil
    show ?thesis unfolding Nil by simp
  next
    case (Cons y ys)
    with hd_dropWhile [of is_js_space "text"] have "\<not> is_js_space y" by simp
    with Cons show ?thesis by auto
  qed
  show ?thesis
    unfolding a b by (rule dropWhile_eq_Nil_conv)
qed


lemma blank_spaces: "\<forall>c \<in> set (replicate n (CHR '' '')). is_js_space c"
  by (simp add: is_js_space_def)


text \<open>
  C10. For every input that is empty or consists of white space only, \<open>findJsonFragments\<close>
  returns \<open>null\<close> with no warning and \<open>extractJson\<close> returns \<open>null\<close>, whatever the length
  of the input: the test for blank input comes before the size limit.
\<close>

theorem blank_input_returns_null:
  assumes "\<forall>c \<in> set text. is_js_space c"
  shows "findJsonFragments stack text = Inr (JNull, []) \<and> extractJson stack text = Inr JNull"
  using assms by (simp add: findJsonFragments_def extractJson_def trim_empty_iff)

theorem blank_input_returns_null_witness:
  "10000000 < length (replicate 10000001 (CHR '' '')) \<and>
   (\<forall>stack. findJsonFragments stack (replicate 10000001 (CHR '' '')) = Inr (JNull, [])) \<and>
   (\<forall>stack. extractJson stack (replicate 10000001 (CHR '' '')) = Inr JNull)"
  using blank_input_returns_null [OF blank_spaces [of 10000001]]
  by (simp only: length_replicate) simp

section \<open>Values returned have been parsed\<close>

lemma try_matches_append:
  "try_matches (ms @ ms') st = try_matches ms' (try_matches ms st)"
  by (induction ms st rule: try_matches.induct) (auto split: sum.splits)

lemma try_patterns_candidates:
  "try_patterns stack jsonPatterns text st =
     (if stack < stack_needed text then Inl RangeError
      else Inr (try_matches (candidates text) st))"
  by (auto simp: jsonPatterns_def match_js_def candidates_def stack_needed_def try_matches_append)

lemma extractJson_rejected:
  assumes "trim text \<noteq> []" and "length text \<le> 10000000" and "JSON_parse text = Inl msg"
  shows "extractJson stack text =
     (if stack < stack_needed text then Inl RangeError
      else Inr (snd (try_matches (candidates text) ([], JNull))))"
  using assms by (simp add: extractJson_def try_patterns_candidates split: prod.splits)

lemma try_matches_parsed:
  "snd (try_matches ms (lm, lp)) = lp \<or>
   (\<exists>m \<in> set ms. JSON_parse m = Inr (snd (try_matches ms (lm, lp))))"
  by (induction ms "(lm, lp)" arbitrary: lm lp rule: try_matches.induct)
     (auto split: sum.splits)

lemma extractJson_parsed:
  assumes "extractJson stack text = Inr v" and "v \<noteq> JNull"
  shows "\<exists>s \<in> insert text (set (candidates text)). JSON_parse s = Inr v"
proof (cases "JSON_parse text")
  case (Inr w)
  with assms show ?thesis
    by (auto simp: extractJson_def split: if_splits)
next
  case (Inl msg)
  with assms have v: "v = snd (try_matches (candidates text) ([], JNull))"
    by (auto simp: extractJson_def try_patterns_candidates split: if_splits prod.splits)
  with try_matches_parsed [of "candidates text" "[]" JNull] assms(2) show ?thesis
    by auto
qed

lemma truthy_not_null: "truthy v \<Longrightarrow> v \<noteq> JNull"
  by auto

text \<open>
  C9. Every value other than \<open>null\<close> that \<open>findJsonFragments\<close> or \<open>extractJson\<close> returns
  is what \<open>JSON.parse\<close> made of a text handed to it during the call: the whole text, one
  of the candidates, or (for \<open>findJsonFragments\<close>) the text rebuilt by the second pass.
\<close>

theorem returned_value_was_parsed:
  "(findJsonFragments stack text = Inr (v, ws) \<and> v \<noteq> JNull \<longrightarrow>
      (\<exists>s \<in> insert text (set (candidates text)). JSON_parse s = Inr v) \<or>
      (\<exists>msg. JSON_parse text = Inl msg \<and> JSON_parse (reconstructed text msg) = Inr v)) \<and>
   (extractJson stack text = Inr v \<and> v \<noteq> JNull \<longrightarrow>
      (\<exists>s \<in> insert text (set (candidates text)). JSON_parse s = Inr v))"
proof (intro conjI impI)
  assume "extractJson stack text = Inr v \<and> v \<noteq> JNull"
  then show "\<exists>s \<in> insert text (set (candidates text)). JSON_parse s = Inr v"
    using extractJson_parsed by blast
next
  assume a: "findJsonFragments stack text = Inr (v, ws) \<and> v \<noteq> JNull"
  show "(\<exists>s \<in> insert text (set (candidates text)). JSON_parse s = Inr v) \<or>
      (\<exists>msg. JSON_parse text = Inl msg \<and> JSON_parse (reconstructed text msg) = Inr v)"
  proof (cases "JSON_parse text")
    case (Inr w)
    with a show ?thesis
      by (auto simp: findJsonFragments_def split: if_splits)
  next
    case (Inl msg)
    with a have r: "recover stack text msg = Inr (v, ws)"
      by (auto simp: findJsonFragments_def split: if_splits)
    show ?thesis
    proof (cases "JSON_parse (reconstructed text msg)")
      case (Inr w)
      show ?thesis
      proof (cases "\<not> isObject text \<and> \<not> isArray text")
        case True
        with r have "extractJson stack text = Inr v"
          by (auto simp: recover_def split: sum.splits)
        with a extractJson_parsed show ?thesis by blast
      next
        case False
        with r Inr have "w = v"
          by (auto simp: recover_def)
        with Inr Inl show ?thesis by blast
      qed
    next
      case e: (Inl e)
      with r a have "extractJson stack text = Inr v"
        by (auto simp: recover_def split: sum.splits if_splits)
      with a extractJson_parsed show ?thesis by blast
    qed
  qed
qed

lemma x1_parse: "JSON_parse ''x[1]'' = Inl (syntax_error_message ''x[1]'')"
  by code_simp

lemma x1_trim: "trim ''x[1]'' = ''x[1]''"
  by code_simp

lemma x1_shape: "\<not> isObject ''x[1]'' \<and> \<not> isArray ''x[1]''"
  by code_simp

lemma x1_candidates: "candidates ''x[1]'' = [''[1]'']"
  by code_simp

lemma x1_fragment: "JSON_parse ''[1]'' = Inr (JArray [JNumber 1 0])"
  by code_simp

lemma x1_stack: "stack_needed ''x[1]'' = 1"
  by code_simp

lemma x1_extract: "extractJson (Suc stack) ''x[1]'' = Inr (JArray [JNumber 1 0])"
  by (simp add: extractJson_def x1_parse x1_trim try_patterns_candidates x1_candidates x1_fragment
      x1_stack)

lemma x1_find:
  "findJsonFragments (Suc stack) ''x[1]'' =
     Inr (JArray [JNumber 1 0],
          [''Invalid JSON: '' @ syntax_error_message ''x[1]'', ''Could not determine JSON structure''])"
  by (simp add: findJsonFragments_def recover_def x1_parse x1_trim x1_shape x1_extract)

theorem returned_value_was_parsed_witness:
  "findJsonFragments 1 ''x[1]'' =
     Inr (JArray [JNumber 1 0],
          [''Invalid JSON: '' @ syntax_error_message ''x[1]'', ''Could not determine JSON structure'']) \<and>
   extractJson 1 ''x[1]'' = Inr (JArray [JNumber 1 0]) \<and>
   (\<exists>s \<in> insert ''x[1]'' (set (candidates ''x[1]'')). JSON_parse s = Inr (JArray [JNumber 1 0]))"
  using returned_value_was_parsed [of 1 "''x[1]''" "JArray [JNumber 1 0]"
      "[''Invalid JSON: '' @ syntax_error_message ''x[1]'', ''Could not determine JSON structure'']"]
    x1_find [of 0] x1_extract [of 0]
  by simp

section \<open>Valid input\<close>

lemma lex_blank:
  "\<forall>c \<in> set text. is_js_space c \<Longrightarrow> lex text = None \<or> lex text = Some []"
proof (induction "text")
  case Nil
  then show ?case by (simp add: lex.simps)
next
  case (Cons c cs)
  then have IH: "lex cs = None \<or> lex cs = Some []" by simp
  from Cons.prems have "is_js_space c" by simp
  then consider "is_json_ws c" | "c = CHR 0x0B" | "c = CHR 0x0C" | "c = CHR 0xA0"
    by (auto simp: is_js_space_def is_json_ws_def)
  then show ?case
  proof cases
    case 1
    with IH show ?thesis by (simp add: lex.simps)
  next
    case 2
    then show ?thesis by (simp add: lex.simps is_json_ws_def is_digit_def)
  next
    case 3
    then show ?thesis by (simp add: lex.simps is_json_ws_def is_digit_def)
  next
    case 4
    then show ?thesis by (simp add: lex.simps is_json_ws_def is_digit_def)
  qed
qed

lemma JSON_parse_blank:
  assumes "\<forall>c \<in> set text. is_js_space c"
  shows "JSON_parse text = Inl (syntax_error_message text)"
  using lex_blank [OF assms] by (auto simp: JSON_parse_def parse_value.simps)

text \<open>
  C2, as amended. For every text that \<open>JSON.parse\<close> accepts and that is at most 10,000,000
  characters long, \<open>findJsonFragments\<close> returns the value of \<open>JSON.parse\<close> and no warning.
\<close>

theorem valid_json_parsed_directly:
  assumes "JSON_parse text = Inr v" and "length text \<le> 10000000"
  shows "findJsonFragments stack text = Inr (v, [])"
proof -
  have "trim text \<noteq> []"
  proof
    assume "trim text = []"
    then have "JSON_parse text = Inl (syntax_error_message text)"
      by (simp add: trim_empty_iff JSON_parse_blank)
    with assms(1) show False by simp
  qed
  with assms show ?thesis
    by (simp add: findJsonFragments_def)
qed

lemma lex_spaces: "lex (replicate n (CHR '' '')) = Some []"
  by (induction n) (simp_all add: lex.simps is_json_ws_def)

lemma JSON_parse_padded_array: "JSON_parse (''[]'' @ replicate n (CHR '' '')) = Inr (JArray [])"
  by (simp add: JSON_parse_def lex.simps lex_spaces is_json_ws_def parse_value.simps)

text \<open>
  C2 as stated fails for a valid text over the size limit: an empty array followed
  by 9,999,999 spaces is valid JSON of 10,000,001 characters, and \<open>findJsonFragments\<close>
  throws.
\<close>

theorem valid_json_over_limit_counterexample:
  "JSON_parse (''[]'' @ replicate 9999999 (CHR '' '')) = Inr (JArray []) \<and>
   10000000 < length (''[]'' @ replicate 9999999 (CHR '' '')) \<and>
   (\<forall>stack. findJsonFragments stack (''[]'' @ replicate 9999999 (CHR '' '')) = Inl SizeLimitExceeded)"
proof -
  have "trim (''[]'' @ replicate 9999999 (CHR '' '')) \<noteq> []"
    by (simp only: trim_empty_iff) (simp add: is_js_space_def)
  moreover have "10000000 < length (''[]'' @ replicate 9999999 (CHR '' ''))"
    by (simp only: length_append length_replicate) simp
  ultimately show ?thesis
    using JSON_parse_padded_array [of 9999999]
    by (simp only: findJsonFragments_def if_True if_False simp_thms)
qed

lemma scenario1_parse:
  \<open>JSON_parse ''{"a":1,"b":[1,2,3]}'' =
     Inr (JObject [(''a'', JNumber 1 0), (''b'', JArray [JNumber 1 0, JNumber 2 0, JNumber 3 0])])\<close>
  by code_simp

theorem valid_json_parsed_directly_witness:
  \<open>\<forall>stack. findJsonFragments stack ''{"a":1,"b":[1,2,3]}'' =
     Inr (JObject [(''a'', JNumber 1 0), (''b'', JArray [JNumber 1 0, JNumber 2 0, JNumber 3 0])], [])\<close>
  using valid_json_parsed_directly [OF scenario1_parse] by simp

section \<open>Text without brackets\<close>

lemma rmatch_bracket_pattern_no_open:
  "s = [] \<or> hd s \<noteq> opn \<Longrightarrow> rmatch (bracket_pattern opn cls) s = []"
  by (cases s) (auto simp: bracket_pattern_def)

lemma match_from_no_open:
  "opn \<notin> set s \<Longrightarrow> match_from (bracket_pattern opn cls) i s = []"
proof (induction s arbitrary: i)
  case Nil
  then show ?case
    by (simp add: match_from.simps [of _ _ "[]"] rmatch_bracket_pattern_no_open)
next
  case (Cons x xs)
  then have "rmatch (bracket_pattern opn cls) (x # xs) = []"
    by (intro rmatch_bracket_pattern_no_open) auto
  with Cons show ?case
    by (simp add: match_from.simps [of _ _ "x # xs"])
qed

lemma candidates_no_brackets:
  "CHR ''{'' \<notin> set text \<Longrightarrow> CHR ''['' \<notin> set text \<Longrightarrow> candidates text = []"
  by (simp add: candidates_def jsonPatterns_def object_pattern_def
      array_pattern_def match_from_no_open)

lemma frames_bracket_pattern_no_open:
  "s = [] \<or> hd s \<noteq> opn \<Longrightarrow> frames (bracket_pattern opn cls) s = 0"
  by (cases s) (auto simp: bracket_pattern_def)

lemma stack_use_no_open:
  "opn \<notin> set s \<Longrightarrow> stack_use (bracket_pattern opn cls) s = 0"
proof (induction s)
  case Nil
  then show ?case
    by (simp add: stack_use.simps [of _ "[]"] rmatch_bracket_pattern_no_open
        frames_bracket_pattern_no_open)
next
  case (Cons x xs)
  then have "rmatch (bracket_pattern opn cls) (x # xs) = []"
    and "frames (bracket_pattern opn cls) (x # xs) = 0"
    by (auto intro!: rmatch_bracket_pattern_no_open frames_bracket_pattern_no_open)
  with Cons show ?case
    by (simp add: stack_use.simps [of _ "x # xs"])
qed

lemma stack_needed_no_brackets:
  "CHR ''{'' \<notin> set text \<Longrightarrow> CHR ''['' \<notin> set text \<Longrightarrow> stack_needed text = 0"
  by (simp add: stack_needed_def object_pattern_def array_pattern_def stack_use_no_open)

lemma set_trim: "set (trim s) \<subseteq> set s"
proof
  fix x
  assume "x \<in> set (trim s)"
  then have "x \<in> set (dropWhile is_js_space (rev (dropWhile is_js_space s)))"
    by (simp add: trim_def)
  then have "x \<in> set (rev (dropWhile is_js_space s))"
    by (rule set_dropWhileD)
  then have "x \<in> set (dropWhile is_js_space s)"
    by simp
  then show "x \<in> set s"
    by (rule set_dropWhileD)
qed

lemma startsWith_char_in: "startsWith (trim s) [c] \<Longrightarrow> c \<in> set s"
proof -
  assume "startsWith (trim s) [c]"
  then have "c \<in> set (trim s)"
    by (cases "trim s") (auto simp: startsWith_def)
  with set_trim show ?thesis by blast
qed

text \<open>
  C8, as amended. For a text without \<open>{\<close> and \<open>[\<close> that is not blank, within the size
  limit and rejected by \<open>JSON.parse\<close> with message \<open>msg\<close>, \<open>findJsonFragments\<close> returns
  \<open>null\<close> and two warnings: \<open>Invalid JSON: msg\<close> and, last, \<open>Could not determine JSON
  structure\<close>.
\<close>

theorem no_brackets_undetermined:
  assumes "CHR ''{'' \<notin> set text" and "CHR ''['' \<notin> set text"
    and "JSON_parse text = Inl msg"
    and "\<exists>c \<in> set text. \<not> is_js_space c"
    and "length text \<le> 10000000"
  shows "findJsonFragments stack text =
    Inr (JNull, [''Invalid JSON: '' @ msg, ''Could not determine JSON structure''])"
proof -
  have shape: "\<not> isObject text" "\<not> isArray text"
    using assms(1,2) startsWith_char_in [of "text"] by (auto simp: isObject_def isArray_def)
  have nb: "trim text \<noteq> []"
    using assms(4) by (simp add: trim_empty_iff)
  have "extractJson stack text = Inr JNull"
    using assms nb
    by (simp add: extractJson_def try_patterns_candidates candidates_no_brackets
        stack_needed_no_brackets)
  with shape have "recover stack text msg =
      Inr (JNull, [''Invalid JSON: '' @ msg, ''Could not determine JSON structure''])"
    by (simp add: recover_def)
  with assms(3,5) nb show ?thesis
    by (simp add: findJsonFragments_def)
qed

lemma hello_parse: "JSON_parse ''hello world'' = Inl (syntax_error_message ''hello world'')"
  by code_simp

theorem no_brackets_undetermined_witness:
  "\<forall>stack. findJsonFragments stack ''hello world'' =
     Inr (JNull, [''Invalid JSON: '' @ syntax_error_message ''hello world'',
                  ''Could not determine JSON structure''])"
  using no_brackets_undetermined [OF _ _ hello_parse]
  by (simp add: is_js_space_def)

lemma not_json_parse:
  "JSON_parse ''not json at all'' = Inl (syntax_error_message ''not json at all'')"
  by code_simp

lemma not_json_trim: "trim ''not json at all'' = ''not json at all''"
  by code_simp

lemma not_json_shape: "\<not> isObject ''not json at all'' \<and> \<not> isArray ''not json at all''"
  by code_simp

lemma not_json_candidates: "candidates ''not json at all'' = []"
  by code_simp

lemma not_json_stack: "stack_needed ''not json at all'' = 0"
  by code_simp

text \<open>
  C8 as stated fails: for \<open>not json at all\<close> the last warning is \<open>Could not determine JSON
  structure\<close>. It does not say that no valid JSON was found: \<open>x[1]\<close> gets the same last
  warning together with the array found in it. The warning \<open>Could not recover any valid
  JSON\<close> belongs to the other branch, after a failed reconstruction.
\<close>

theorem no_brackets_counterexample:
  "(\<forall>stack. findJsonFragments stack ''not json at all'' =
     Inr (JNull, [''Invalid JSON: '' @ syntax_error_message ''not json at all'',
                  ''Could not determine JSON structure''])) \<and>
   (\<forall>stack. findJsonFragments (Suc stack) ''x[1]'' =
     Inr (JArray [JNumber 1 0],
          [''Invalid JSON: '' @ syntax_error_message ''x[1]'',
           ''Could not determine JSON structure''])) \<and>
   ''Could not determine JSON structure'' \<noteq> ''Could not recover any valid JSON''"
proof -
  have "extractJson stack ''not json at all'' = Inr JNull" for stack
    by (simp add: extractJson_def not_json_parse not_json_trim try_patterns_candidates
        not_json_candidates not_json_stack)
  then have "findJsonFragments stack ''not json at all'' =
     Inr (JNull, [''Invalid JSON: '' @ syntax_error_message ''not json at all'',
                  ''Could not determine JSON structure''])" for stack
    by (simp add: findJsonFragments_def recover_def not_json_parse not_json_trim not_json_shape)
  with x1_find show ?thesis
    by simp
qed

lemma scenario2_parse: "JSON_parse scenario2 = Inl (syntax_error_message scenario2)"
  by code_simp

lemma scenario2_trim: "trim scenario2 = scenario2"
  by code_simp

lemma scenario2_shape: "\<not> isObject scenario2 \<and> \<not> isArray scenario2"
  by code_simp

lemma scenario2_candidates: \<open>candidates scenario2 = [''{"x": 5}'']\<close>
  by code_simp

lemma scenario2_fragment: \<open>JSON_parse ''{"x": 5}'' = Inr (JObject [(''x'', JNumber 5 0)])\<close>
  by code_simp

lemma scenario2_length: "length scenario2 = 27"
  by code_simp

lemma scenario2_nonempty: "scenario2 \<noteq> []"
  using scenario2_length by auto

lemma scenario2_stack: "stack_needed scenario2 = 6"
  by code_simp

text \<open>
  The second scenario of the specification: the object embedded in prose is returned, with
  the two warnings of the branch that could not determine the structure, by every engine
  whose stack holds the six frames of the search.
\<close>

theorem scenario2_extracted:
  "findJsonFragments (6 + stack) scenario2 =
     Inr (JObject [(''x'', JNumber 5 0)],
          [''Invalid JSON: '' @ syntax_error_message scenario2,
           ''Could not determine JSON structure''])"
proof -
  have "extractJson (6 + stack) scenario2 = Inr (JObject [(''x'', JNumber 5 0)])"
    by (simp add: extractJson_def scenario2_parse scenario2_trim scenario2_length
        scenario2_nonempty try_patterns_candidates scenario2_candidates scenario2_fragment
        scenario2_stack)
  then show ?thesis
    by (simp add: findJsonFragments_def recover_def scenario2_parse scenario2_trim scenario2_length
        scenario2_nonempty scenario2_shape)
qed

section \<open>The longest candidate\<close>

lemma try_matches_first_longest:
  "(try_matches ms (lm, lp) = (lm, lp) \<and> (\<forall>x \<in> set ms. parses x \<longrightarrow> length x \<le> length lm)) \<or>
   (\<exists>before m after. ms = before @ m # after \<and>
      try_matches ms (lm, lp) = (m, snd (try_matches ms (lm, lp))) \<and>
      JSON_parse m = Inr (snd (try_matches ms (lm, lp))) \<and>
      length lm < length m \<and>
      (\<forall>x \<in> set before. parses x \<longrightarrow> length x < length m) \<and>
      (\<forall>x \<in> set after. parses x \<longrightarrow> length x \<le> length m))"
  (is "?A ms lm lp \<or> ?B ms lm lp")
proof (induction ms arbitrary: lm lp)
  case Nil
  then show ?case by simp
next
  case (Cons c cs)
  show ?case
  proof (cases "length c \<le> length lm")
    case True
    then have eq: "try_matches (c # cs) (lm, lp) = try_matches cs (lm, lp)" by simp
    from Cons [of lm lp] show ?thesis
    proof
      assume "?A cs lm lp"
      with True eq have "?A (c # cs) lm lp" by simp
      then show ?thesis ..
    next
      assume "?B cs lm lp"
      then obtain before m after where b: "cs = before @ m # after"
        "try_matches cs (lm, lp) = (m, snd (try_matches cs (lm, lp)))"
        "JSON_parse m = Inr (snd (try_matches cs (lm, lp)))"
        "length lm < length m"
        "\<forall>x \<in> set before. parses x \<longrightarrow> length x < length m"
        "\<forall>x \<in> set after. parses x \<longrightarrow> length x \<le> length m"
        by blast
      have "c # cs = (c # before) @ m # after" using b(1) by simp
      moreover have "\<forall>x \<in> set (c # before). parses x \<longrightarrow> length x < length m"
        using b(4,5) True by auto
      ultimately have "?B (c # cs) lm lp"
        unfolding eq using b(2,3,4,6) by blast
      then show ?thesis ..
    qed
  next
    case longer: False
    show ?thesis
    proof (cases "JSON_parse c")
      case (Inl e)
      with longer have eq: "try_matches (c # cs) (lm, lp) = try_matches cs (lm, lp)" by simp
      from Inl have np: "\<not> parses c" by (simp add: parses_def)
      from Cons [of lm lp] show ?thesis
      proof
        assume "?A cs lm lp"
        with np eq have "?A (c # cs) lm lp" by simp
        then show ?thesis ..
      next
        assume "?B cs lm lp"
        then obtain before m after where b: "cs = before @ m # after"
          "try_matches cs (lm, lp) = (m, snd (try_matches cs (lm, lp)))"
          "JSON_parse m = Inr (snd (try_matches cs (lm, lp)))"
          "length lm < length m"
          "\<forall>x \<in> set before. parses x \<longrightarrow> length x < length m"
          "\<forall>x \<in> set after. parses x \<longrightarrow> length x \<le> length m"
          by blast
        have "c # cs = (c # before) @ m # after" using b(1) by simp
        moreover have "\<forall>x \<in> set (c # before). parses x \<longrightarrow> length x < length m"
          using b(5) np by auto
        ultimately have "?B (c # cs) lm lp"
          unfolding eq using b(2,3,4,6) by blast
        then show ?thesis ..
      qed
    next
      case (Inr parsed)
      with longer have eq: "try_matches (c # cs) (lm, lp) = try_matches cs (c, parsed)" by simp
      from Cons [of c parsed] show ?thesis
      proof
        assume a: "?A cs c parsed"
        have "c # cs = [] @ c # cs" by simp
        moreover from a eq have "try_matches (c # cs) (lm, lp) = (c, parsed)" by simp
        ultimately have "?B (c # cs) lm lp"
          using a Inr longer by (intro exI [of _ "[]"] exI [of _ c] exI [of _ cs]) auto
        then show ?thesis ..
      next
        assume "?B cs c parsed"
        then obtain before m after where b: "cs = before @ m # after"
          "try_matches cs (c, parsed) = (m, snd (try_matches cs (c, parsed)))"
          "JSON_parse m = Inr (snd (try_matches cs (c, parsed)))"
          "length c < length m"
          "\<forall>x \<in> set before. parses x \<longrightarrow> length x < length m"
          "\<forall>x \<in> set after. parses x \<longrightarrow> length x \<le> length m"
          by blast
        have "c # cs = (c # before) @ m # after" using b(1) by simp
        moreover have "\<forall>x \<in> set (c # before). parses x \<longrightarrow> length x < length m"
          using b(4,5) by auto
        moreover have "length lm < length m" using longer b(4) by simp
        ultimately have "?B (c # cs) lm lp"
          unfolding eq using b(2,3,6) by blast
        then show ?thesis ..
      qed
    qed
  qed
qed

lemma match_from_end: "rmatch r [] = [] \<Longrightarrow> match_from r i [] = []"
  by (subst match_from.simps) simp

lemma match_from_miss:
  "rmatch r (x # xs) = [] \<Longrightarrow> match_from r i (x # xs) = match_from r (i + 1) xs"
  by (subst match_from.simps) simp

lemma match_from_hit_empty_end:
  "rmatch r [] = rest # other \<Longrightarrow> match_from r i [] = [(i, [])]"
  by (subst match_from.simps) simp

lemma match_from_hit_empty:
  "rmatch r (x # xs) = rest # other \<Longrightarrow> length (x # xs) - length rest = 0 \<Longrightarrow>
   match_from r i (x # xs) = (i, []) # match_from r (i + 1) xs"
  by (subst match_from.simps) simp

lemma match_from_hit:
  "rmatch r s = rest # other \<Longrightarrow> n = length s - length rest \<Longrightarrow> n \<noteq> 0 \<Longrightarrow>
   match_from r i s = (i, take n s) # match_from r (i + n) (drop n s)"
  by (subst match_from.simps) (simp add: Let_def)

lemma match_from_offset_ge:
  "(k, m) \<in> set (match_from r i s) \<Longrightarrow> i \<le> k"
proof (induction r i s arbitrary: k m rule: match_from.induct)
  case (1 r i s)
  show ?case
  proof (cases "rmatch r s")
    case Nil
    show ?thesis
    proof (cases s)
      case Nil': Nil
      with Nil "1.prems" show ?thesis
        by (simp add: match_from_end)
    next
      case (Cons x xs)
      with Nil "1.prems" have "(k, m) \<in> set (match_from r (i + 1) xs)"
        by (simp add: match_from_miss)
      with "1.IH"(1) [OF Nil Cons] show ?thesis by fastforce
    qed
  next
    case (Cons rest other)
    define n where "n = length s - length rest"
    show ?thesis
    proof (cases "n = 0")
      case True
      show ?thesis
      proof (cases s)
        case Nil
        with Cons "1.prems" show ?thesis
          by (simp add: match_from_hit_empty_end)
      next
        case c: (Cons x xs)
        with Cons True "1.prems" have "k = i \<or> (k, m) \<in> set (match_from r (i + 1) xs)"
          by (auto simp: match_from_hit_empty n_def)
        with "1.IH"(2) [OF Cons n_def True c] show ?thesis by fastforce
      qed
    next
      case False
      with Cons "1.prems" have "k = i \<or> (k, m) \<in> set (match_from r (i + n) (drop n s))"
        by (auto simp: match_from_hit [OF Cons n_def False])
      with "1.IH"(3) [OF Cons n_def False] show ?thesis by fastforce
    qed
  qed
qed

lemma match_from_offsets_increasing:
  "sorted_wrt (\<lambda>a b. fst a < fst b) (match_from r i s)"
proof (induction r i s rule: match_from.induct)
  case (1 r i s)
  show ?case
  proof (cases "rmatch r s")
    case Nil
    show ?thesis
    proof (cases s)
      case Nil': Nil
      with Nil show ?thesis by (simp add: match_from_end)
    next
      case (Cons x xs)
      with Nil "1.IH"(1) [OF Nil Cons] show ?thesis by (simp add: match_from_miss)
    qed
  next
    case (Cons rest other)
    define n where "n = length s - length rest"
    show ?thesis
    proof (cases "n = 0")
      case True
      show ?thesis
      proof (cases s)
        case Nil
        with Cons show ?thesis
          by (simp add: match_from_hit_empty_end)
      next
        case c: (Cons x xs)
        have "\<forall>p \<in> set (match_from r (i + 1) xs). i < fst p"
          using match_from_offset_ge [of _ _ r "i + 1" xs] by fastforce
        with "1.IH"(2) [OF Cons n_def True c] Cons True c show ?thesis
          by (simp add: match_from_hit_empty n_def)
      qed
    next
      case False
      have "\<forall>p \<in> set (match_from r (i + n) (drop n s)). i < fst p"
        using match_from_offset_ge [of _ _ r "i + n" "drop n s"] False by fastforce
      with "1.IH"(3) [OF Cons n_def False] show ?thesis
        by (simp add: match_from_hit [OF Cons n_def False])
    qed
  qed
qed

lemma match_from_substring:
  "(k, m) \<in> set (match_from r i s) \<Longrightarrow> m = take (length m) (drop (k - i) s)"
proof (induction r i s arbitrary: k m rule: match_from.induct)
  case (1 r i s)
  show ?case
  proof (cases "rmatch r s")
    case Nil
    show ?thesis
    proof (cases s)
      case Nil': Nil
      with Nil "1.prems" show ?thesis
        by (simp add: match_from_end)
    next
      case (Cons x xs)
      with Nil "1.prems" have in': "(k, m) \<in> set (match_from r (i + 1) xs)"
        by (simp add: match_from_miss)
      from match_from_offset_ge [OF in'] have "k - i = Suc (k - (i + 1))" by simp
      with "1.IH"(1) [OF Nil Cons in'] Cons show ?thesis by simp
    qed
  next
    case (Cons rest other)
    define n where "n = length s - length rest"
    show ?thesis
    proof (cases "n = 0")
      case True
      show ?thesis
      proof (cases s)
        case Nil
        with Cons "1.prems" show ?thesis
          by (simp add: match_from_hit_empty_end)
      next
        case c: (Cons x xs)
        with Cons True "1.prems" consider "k = i" "m = []"
          | "(k, m) \<in> set (match_from r (i + 1) xs)"
          by (auto simp: match_from_hit_empty n_def)
        then show ?thesis
        proof cases
          case 1
          then show ?thesis by simp
        next
          case 2
          from match_from_offset_ge [OF 2] have "k - i = Suc (k - (i + 1))" by simp
          with "1.IH"(2) [OF Cons n_def True c 2] c show ?thesis by simp
        qed
      qed
    next
      case False
      with Cons "1.prems" consider "k = i" "m = take n s"
        | "(k, m) \<in> set (match_from r (i + n) (drop n s))"
        by (auto simp: match_from_hit [OF Cons n_def False])
      then show ?thesis
      proof cases
        case 1
        have "n \<le> length s" by (simp add: n_def)
        with 1 show ?thesis by (simp add: min_absorb2)
      next
        case 2
        from match_from_offset_ge [OF 2] have "k - i = n + (k - (i + n))" by simp
        with "1.IH"(3) [OF Cons n_def False 2] show ?thesis by (simp add: add.commute)
      qed
    qed
  qed
qed

lemma candidates_eq:
  "candidates text =
     map snd (match_from object_pattern 0 text) @ map snd (match_from array_pattern 0 text)"
  by (simp add: candidates_def jsonPatterns_def)

text \<open>
  C5, as amended. When \<open>extractJson\<close> returns a value other than \<open>null\<close> and \<open>JSON.parse\<close>
  accepts the whole text, the value is the parse of the whole text. When \<open>JSON.parse\<close>
  rejects the whole text, the value is the parse of a candidate \<open>m\<close> such that every
  candidate that passes strict parsing and comes before \<open>m\<close> in the list of candidates is
  strictly shorter, and every one that comes after is not longer. The list holds the
  matches of the object pattern first, then those of the array pattern, each by
  increasing start offset. So the longest valid candidate wins whatever its shape; among
  the longest, an object-shaped one wins over an array-shaped one, and within one shape
  the earliest wins.
\<close>

theorem longest_candidate_wins:
  assumes "extractJson stack text = Inr v" and "v \<noteq> JNull"
  shows "(case JSON_parse text of
            Inr whole \<Rightarrow> v = whole
          | Inl msg \<Rightarrow>
             (\<exists>before m after. candidates text = before @ m # after \<and>
                JSON_parse m = Inr v \<and>
                (\<forall>x \<in> set before. parses x \<longrightarrow> length x < length m) \<and>
                (\<forall>x \<in> set after. parses x \<longrightarrow> length x \<le> length m))) \<and>
         candidates text =
           map snd (match_from object_pattern 0 text) @ map snd (match_from array_pattern 0 text) \<and>
         (\<forall>p \<in> {object_pattern, array_pattern}.
            sorted_wrt (\<lambda>a b. fst a < fst b) (match_from p 0 text) \<and>
            (\<forall>(k, m) \<in> set (match_from p 0 text). m = take (length m) (drop k text)))"
proof -
  have "case JSON_parse text of
            Inr whole \<Rightarrow> v = whole
          | Inl msg \<Rightarrow>
             (\<exists>before m after. candidates text = before @ m # after \<and>
                JSON_parse m = Inr v \<and>
                (\<forall>x \<in> set before. parses x \<longrightarrow> length x < length m) \<and>
                (\<forall>x \<in> set after. parses x \<longrightarrow> length x \<le> length m))"
  proof (cases "JSON_parse text")
    case (Inr whole)
    with assms have "v = whole"
      by (auto simp: extractJson_def split: if_splits)
    with Inr show ?thesis by simp
  next
    case (Inl msg)
    with assms have v: "v = snd (try_matches (candidates text) ([], JNull))"
      by (auto simp: extractJson_def try_patterns_candidates split: if_splits prod.splits)
    from try_matches_first_longest [of "candidates text" "[]" JNull] v assms(2)
    have "\<exists>before m after. candidates text = before @ m # after \<and>
            JSON_parse m = Inr v \<and>
            (\<forall>x \<in> set before. parses x \<longrightarrow> length x < length m) \<and>
            (\<forall>x \<in> set after. parses x \<longrightarrow> length x \<le> length m)"
      by (elim disjE) (simp, blast)
    with Inl show ?thesis by simp
  qed
  moreover have "\<forall>(k, m) \<in> set (match_from p 0 text). m = take (length m) (drop k text)" for p
    using match_from_substring [of _ _ p 0 "text"] by auto
  ultimately show ?thesis
    using candidates_eq match_from_offsets_increasing by blast
qed

lemma tie_parse: "JSON_parse ''[] {}'' = Inl (syntax_error_message ''[] {}'')"
  by code_simp

lemma tie_trim: "trim ''[] {}'' = ''[] {}''"
  by code_simp

lemma tie_arrays: "match_from array_pattern 0 ''[] {}'' = [(0, ''[]'')]"
  by code_simp

lemma tie_objects: "match_from object_pattern 0 ''[] {}'' = [(3, ''{}'')]"
  by code_simp

lemma empty_array_parse: "JSON_parse ''[]'' = Inr (JArray [])"
  by code_simp

lemma empty_object_parse: "JSON_parse ''{}'' = Inr (JObject [])"
  by code_simp

lemma five_parse: "JSON_parse ''5'' = Inr (JNumber 5 0)"
  by code_simp

lemma five_trim: "trim ''5'' = ''5''"
  by code_simp

lemma five_candidates: "candidates ''5'' = []"
  by code_simp

lemma tie_stack: "stack_needed ''[] {}'' = 0"
  by code_simp

text \<open>
  C5 as stated fails twice. In \<open>[] {}\<close> the array at offset 0 and the object at
  offset 3 both parse and have the same length, and the object is returned. For the
  text \<open>5\<close> the value returned is the parse of the whole text; there is no candidate.
\<close>

theorem longest_candidate_counterexample:
  "match_from array_pattern 0 ''[] {}'' = [(0, ''[]'')] \<and>
   match_from object_pattern 0 ''[] {}'' = [(3, ''{}'')] \<and>
   JSON_parse ''[]'' = Inr (JArray []) \<and>
   JSON_parse ''{}'' = Inr (JObject []) \<and>
   (\<forall>stack. extractJson stack ''[] {}'' = Inr (JObject [])) \<and>
   candidates ''5'' = [] \<and>
   (\<forall>stack. extractJson stack ''5'' = Inr (JNumber 5 0))"
proof -
  have "extractJson stack ''[] {}'' = Inr (JObject [])" for stack
    by (simp add: extractJson_def tie_parse tie_trim try_patterns_candidates candidates_eq
        tie_arrays tie_objects empty_array_parse empty_object_parse tie_stack)
  moreover have "extractJson stack ''5'' = Inr (JNumber 5 0)" for stack
    by (simp add: extractJson_def five_parse five_trim)
  ultimately show ?thesis
    using tie_arrays tie_objects empty_array_parse empty_object_parse five_candidates
    by simp
qed

lemma mix_parse: "JSON_parse ''{} [] [1]'' = Inl (syntax_error_message ''{} [] [1]'')"
  by code_simp

lemma mix_trim: "trim ''{} [] [1]'' = ''{} [] [1]''"
  by code_simp

lemma mix_candidates: "candidates ''{} [] [1]'' = [''{}'', ''[]'', ''[1]'']"
  by code_simp

lemma mix_stack: "stack_needed ''{} [] [1]'' = 1"
  by code_simp

lemma mix_extract: "extractJson (Suc stack) ''{} [] [1]'' = Inr (JArray [JNumber 1 0])"
  by (simp add: extractJson_def mix_parse mix_trim try_patterns_candidates mix_candidates
      empty_array_parse empty_object_parse x1_fragment mix_stack)

theorem longest_candidate_wins_witness:
  "extractJson 1 ''{} [] [1]'' = Inr (JArray [JNumber 1 0]) \<and>
   (\<exists>before m after. candidates ''{} [] [1]'' = before @ m # after \<and>
      JSON_parse m = Inr (JArray [JNumber 1 0]) \<and>
      (\<forall>x \<in> set before. parses x \<longrightarrow> length x < length m) \<and>
      (\<forall>x \<in> set after. parses x \<longrightarrow> length x \<le> length m))"
proof -
  have v: "JArray [JNumber 1 0] \<noteq> JNull" by simp
  have e: "extractJson 1 ''{} [] [1]'' = Inr (JArray [JNumber 1 0])"
    using mix_extract [of 0] by simp
  from longest_candidate_wins [OF e v] have
    "case JSON_parse ''{} [] [1]'' of
       Inr whole \<Rightarrow> JArray [JNumber 1 0] = whole
     | Inl msg \<Rightarrow>
        (\<exists>before m after. candidates ''{} [] [1]'' = before @ m # after \<and>
           JSON_parse m = Inr (JArray [JNumber 1 0]) \<and>
           (\<forall>x \<in> set before. parses x \<longrightarrow> length x < length m) \<and>
           (\<forall>x \<in> set after. parses x \<longrightarrow> length x \<le> length m))"
    by (rule conjunct1)
  then have
    "\<exists>before m after. candidates ''{} [] [1]'' = before @ m # after \<and>
      JSON_parse m = Inr (JArray [JNumber 1 0]) \<and>
      (\<forall>x \<in> set before. parses x \<longrightarrow> length x < length m) \<and>
      (\<forall>x \<in> set after. parses x \<longrightarrow> length x \<le> length m)"
    by (simp only: mix_parse sum.case)
  with e show ?thesis
    by (rule conjI)
qed

section \<open>The candidates and the depth of nesting\<close>

lemma rmatch_star:
  "rmatch (Star a) s =
     concat (map (\<lambda>s'. if length s' < length s then rmatch (Star a) s' else []) (rmatch a s)) @ [s]"
  by (rule rmatch.simps(5))

lemma star_no_round: "rmatch a s = [] \<Longrightarrow> rmatch (Star a) s = [s]"
  by (subst rmatch_star) simp

lemma star_one_round:
  "rmatch a s = [r] \<Longrightarrow> length r < length s \<Longrightarrow> rmatch (Star a) s = rmatch (Star a) r @ [s]"
  by (subst rmatch_star) simp

lemma innermost_agrees:
  assumes "opn \<noteq> cls"
  shows "agrees opn cls 2 (Seq (Star (NotIn [opn, cls])) (Lit cls)) s"
proof (induction s)
  case Nil
  have "rmatch (Star (NotIn [opn, cls])) [] = [[]]"
    by (rule star_no_round) simp
  then show ?case by (simp add: agrees_def)
next
  case (Cons x xs)
  consider "x = cls" | "x = opn" | "x \<noteq> cls" "x \<noteq> opn" by blast
  then show ?case
  proof cases
    case 1
    have "rmatch (Star (NotIn [opn, cls])) (x # xs) = [x # xs]"
      by (rule star_no_round) (simp add: 1)
    with 1 show ?thesis by (simp add: agrees_def cont_def)
  next
    case 2
    have "rmatch (Star (NotIn [opn, cls])) (x # xs) = [x # xs]"
      by (rule star_no_round) (simp add: 2)
    with 2 assms show ?thesis by (simp add: agrees_def)
  next
    case 3
    have "rmatch (Star (NotIn [opn, cls])) (x # xs) = rmatch (Star (NotIn [opn, cls])) xs @ [x # xs]"
      by (rule star_one_round) (simp_all add: 3)
    with 3 have eq: "rmatch (Seq (Star (NotIn [opn, cls])) (Lit cls)) (x # xs) =
        rmatch (Seq (Star (NotIn [opn, cls])) (Lit cls)) xs"
      by simp
    from 3 have cl: "depth_walk opn cls 2 (x # xs) = depth_walk opn cls 2 xs" by simp
    from Cons show ?thesis
      unfolding agrees_def eq cl by auto
  qed
qed

lemma outer_agrees:
  assumes "opn \<noteq> cls" and "d < 2" and inner: "\<And>s. agrees opn cls (Suc d) b s"
  shows "agrees opn cls d (Seq (Star (Alt (NotIn [opn, cls]) (Seq (Lit opn) b))) (Lit cls)) s"
    (is "agrees opn cls d (Seq (Star ?item) (Lit cls)) s")
proof (induction s rule: length_induct)
  case (1 s)
  let ?body = "Seq (Star ?item) (Lit cls)"
  show ?case
  proof (cases s)
    case Nil
    have "rmatch (Star ?item) [] = [[]]"
      by (rule star_no_round) simp
    with Nil show ?thesis by (simp add: agrees_def)
  next
    case (Cons x xs)
    consider "x = cls" | "x = opn" | "x \<noteq> cls" "x \<noteq> opn" by blast
    then show ?thesis
    proof cases
      case 1
      have "rmatch (Star ?item) (x # xs) = [x # xs]"
        using 1 assms(1) by (intro star_no_round) simp
      with 1 Cons show ?thesis by (simp add: agrees_def cont_def)
    next
      case 2
      from 2 assms have item: "rmatch ?item (x # xs) = rmatch b xs" by simp
      from 2 assms have cl: "depth_walk opn cls d (x # xs) = depth_walk opn cls (Suc d) xs" by simp
      from inner [of xs] show ?thesis
        unfolding agrees_def [of opn cls "Suc d"]
      proof
        assume a: "rmatch b xs = [] \<and> depth_walk opn cls (Suc d) xs = None"
        with item have "rmatch (Star ?item) (x # xs) = [x # xs]"
          by (intro star_no_round) simp
        with 2 assms(1) a cl Cons show ?thesis by (simp add: agrees_def)
      next
        assume "\<exists>r. rmatch b xs = [r] \<and> length r < length xs \<and>
          depth_walk opn cls (Suc d) xs = cont opn cls (Suc d) r"
        then obtain r where r: "rmatch b xs = [r]" "length r < length xs"
          "depth_walk opn cls (Suc d) xs = depth_walk opn cls d r"
          by (auto simp: cont_def)
        have "rmatch (Star ?item) (x # xs) = rmatch (Star ?item) r @ [x # xs]"
          using item r by (intro star_one_round) simp_all
        with 2 assms(1) have eq: "rmatch ?body (x # xs) = rmatch ?body r" by simp
        from r(2) Cons have "length r < length s" by simp
        with 1 have IH: "agrees opn cls d ?body r" by blast
        from r(2) have "\<And>r'. length r' < length r \<Longrightarrow> length r' < length (x # xs)" by simp
        with IH show ?thesis
          unfolding agrees_def Cons eq cl r(3) by blast
      qed
    next
      case 3
      from 3 have item: "rmatch ?item (x # xs) = [xs]" by simp
      have "rmatch (Star ?item) (x # xs) = rmatch (Star ?item) xs @ [x # xs]"
        using item by (intro star_one_round) simp_all
      with 3 have eq: "rmatch ?body (x # xs) = rmatch ?body xs" by simp
      from 3 have cl: "depth_walk opn cls d (x # xs) = depth_walk opn cls d xs" by simp
      from Cons 1 have IH: "agrees opn cls d ?body xs" by simp
      have "\<And>r'. length r' < length xs \<Longrightarrow> length r' < length (x # xs)" by simp
      with IH show ?thesis
        unfolding agrees_def Cons eq cl by blast
    qed
  qed
qed

lemma rmatch_bracket_pattern:
  assumes "opn \<noteq> cls"
  shows "rmatch (bracket_pattern opn cls) s =
    (case s of
       [] \<Rightarrow> []
     | x # xs \<Rightarrow>
        if x = opn then (case depth_walk opn cls 0 xs of None \<Rightarrow> [] | Some r \<Rightarrow> [r]) else [])"
proof (cases s)
  case Nil
  then show ?thesis by (simp add: bracket_pattern_def)
next
  case (Cons x xs)
  let ?b2 = "Seq (Star (NotIn [opn, cls])) (Lit cls)"
  let ?b1 = "Seq (Star (Alt (NotIn [opn, cls]) (Seq (Lit opn) ?b2))) (Lit cls)"
  let ?b0 = "Seq (Star (Alt (NotIn [opn, cls]) (Seq (Lit opn) ?b1))) (Lit cls)"
  have a2: "agrees opn cls (Suc 1) ?b2 t" for t
    using innermost_agrees [OF assms, of t] by (simp add: numeral_2_eq_2)
  have a1: "agrees opn cls (Suc 0) ?b1 t" for t
    using outer_agrees [OF assms _ a2, of t] by simp
  have a0: "agrees opn cls 0 ?b0 xs"
    by (rule outer_agrees [OF assms _ a1]) simp
  have "rmatch (bracket_pattern opn cls) (x # xs) = (if x = opn then rmatch ?b0 xs else [])"
    by (simp add: bracket_pattern_def)
  with a0 Cons show ?thesis
    by (auto simp: agrees_def cont_def)
qed

lemma match_from_fragments:
  assumes "opn \<noteq> cls"
  shows "match_from (bracket_pattern opn cls) i s = balanced_fragments opn cls i s"
  using assms
proof (induction opn cls i s rule: balanced_fragments.induct)
  case (1 opn cls i)
  then show ?case
    by (simp add: match_from_end rmatch_bracket_pattern)
next
  case (2 opn cls i x xs)
  note ne = "2.prems"
  show ?case
  proof (cases "x = opn")
    case False
    then have "rmatch (bracket_pattern opn cls) (x # xs) = []"
      by (simp add: rmatch_bracket_pattern [OF ne])
    with False "2.IH"(3) [OF False ne] show ?thesis
      by (simp add: match_from_miss)
  next
    case True
    show ?thesis
    proof (cases "depth_walk opn cls 0 xs")
      case None
      with True have "rmatch (bracket_pattern opn cls) (x # xs) = []"
        by (simp add: rmatch_bracket_pattern [OF ne])
      with True None "2.IH"(1) [OF True None ne] show ?thesis
        by (simp add: match_from_miss)
    next
      case (Some rest)
      with True have hit: "rmatch (bracket_pattern opn cls) (x # xs) = rest # []"
        by (simp add: rmatch_bracket_pattern [OF ne])
      define n where "n = length (x # xs) - length rest"
      from depth_walk_suffix [OF Some] obtain w where w: "xs = w @ rest" by blast
      then have n: "n = Suc (length w)" by (simp add: n_def)
      then have "n \<noteq> 0" by simp
      from match_from_hit [OF hit n_def this]
      have "match_from (bracket_pattern opn cls) i (x # xs) =
          (i, take n (x # xs)) # match_from (bracket_pattern opn cls) (i + n) (drop n (x # xs))" .
      moreover have "drop n (x # xs) = rest"
        using w n by simp
      ultimately show ?thesis
        using True Some "2.IH"(2) [OF True Some ne] by (simp add: n_def)
    qed
  qed
qed

text \<open>
  C1, as amended. The candidates that \<open>extractJson\<close> tries are exactly the fragments of
  the depth-counting walk that is limited to three levels of brackets of one kind and
  counts the brackets inside string literals like the others: the matches of the object
  pattern are the fragments for \<open>{\<close> and \<open>}\<close>, those of the array pattern the fragments for
  \<open>[\<close> and \<open>]\<close>, and the loops try the former, then the latter, unless the engine runs
  out of stack in one of the two searches.
\<close>

theorem candidates_are_depth_three_fragments:
  "match_from object_pattern 0 text = balanced_fragments (CHR ''{'') (CHR ''}'') 0 text \<and>
   match_from array_pattern 0 text = balanced_fragments (CHR ''['') (CHR '']'') 0 text \<and>
   candidates text =
     map snd (balanced_fragments (CHR ''{'') (CHR ''}'') 0 text) @
     map snd (balanced_fragments (CHR ''['') (CHR '']'') 0 text) \<and>
   try_patterns stack jsonPatterns text st =
     (if stack < stack_needed text then Inl RangeError
      else Inr (try_matches (candidates text) st))"
  by (simp add: candidates_eq object_pattern_def array_pattern_def match_from_fragments
      try_patterns_candidates)

lemma deep_parse: "JSON_parse ''[[[[]]]]'' = Inr (JArray [JArray [JArray [JArray []]]])"
  by code_simp

lemma deep_candidates: "candidates ''x[[[[]]]]'' = [''[[[]]]'']"
  by code_simp

lemma brace_in_string_parse:
  \<open>JSON_parse ''{"a":"}"}'' = Inr (JObject [(''a'', JString ''}'')])\<close>
  by code_simp

lemma brace_in_string_candidates:
  \<open>candidates ''x{"a":"}"}'' = [''{"a":"}'']\<close>
  by code_simp

text \<open>
  C1 as stated fails. The valid array \<open>[[[[]]]]\<close>, nested four deep, is embedded in
  \<open>x[[[[]]]]\<close> and is no candidate; the only candidate is the inner \<open>[[[]]]\<close>. The valid
  object \<open>{"a":"}"}\<close> is embedded in \<open>x{"a":"}"}\<close> and is no candidate: the brace inside the
  string literal ends the match.
\<close>

theorem candidates_counterexample:
  \<open>JSON_parse ''[[[[]]]]'' = Inr (JArray [JArray [JArray [JArray []]]]) \<and>
   candidates (''x'' @ ''[[[[]]]]'') = [''[[[]]]''] \<and>
   ''[[[[]]]]'' \<notin> set (candidates (''x'' @ ''[[[[]]]]'')) \<and>
   JSON_parse ''{"a":"}"}'' = Inr (JObject [(''a'', JString ''}'')]) \<and>
   candidates (''x'' @ ''{"a":"}"}'') = [''{"a":"}''] \<and>
   ''{"a":"}"}'' \<notin> set (candidates (''x'' @ ''{"a":"}"}''))\<close>
  using deep_parse deep_candidates brace_in_string_parse brace_in_string_candidates
  by simp

theorem candidates_are_depth_three_fragments_witness:
  "candidates ''x[[[[]]]]'' =
     map snd (balanced_fragments (CHR ''{'') (CHR ''}'') 0 ''x[[[[]]]]'') @
     map snd (balanced_fragments (CHR ''['') (CHR '']'') 0 ''x[[[[]]]]'') \<and>
   balanced_fragments (CHR ''['') (CHR '']'') 0 ''x[[[[]]]]'' = [(2, ''[[[]]]'')]"
proof -
  have "balanced_fragments (CHR ''['') (CHR '']'') 0 ''x[[[[]]]]'' = [(2, ''[[[]]]'')]"
    by code_simp
  then show ?thesis
    using candidates_are_depth_three_fragments [of "''x[[[[]]]]''"] by simp
qed

section \<open>Errors within the size limit\<close>


lemma rmatch_round_letter:
  "x \<noteq> opn \<Longrightarrow> x \<noteq> cls \<Longrightarrow>
   rmatch (Alt (NotIn [opn, cls]) (Seq (Lit opn) b)) (x # xs) = [xs]"
  by simp




















lemma x_parse: "JSON_parse ''x'' = Inl (syntax_error_message ''x'')"
  by code_simp




text \<open>
  \<open>extractJson\<close> has the same two guards as \<open>findJsonFragments\<close>: it throws the size error
  exactly for the inputs over the limit that are not blank, and the \<open>RangeError\<close> exactly
  for the inputs within the limit that \<open>JSON.parse\<close> rejects and whose search needs more
  frames than the stack holds.
\<close>

theorem extractJson_size_limit_iff:
  "(extractJson stack text = Inl SizeLimitExceeded \<longleftrightarrow>
      10000000 < length text \<and> (\<exists>c \<in> set text. \<not> is_js_space c)) \<and>
   (extractJson stack text = Inl RangeError \<longleftrightarrow>
      length text \<le> 10000000 \<and> (\<exists>c \<in> set text. \<not> is_js_space c) \<and>
      (\<exists>msg. JSON_parse text = Inl msg) \<and> stack < stack_needed text)"
proof (cases "trim text = []")
  case True
  then show ?thesis
    by (simp add: extractJson_def trim_empty_iff)
next
  case nb: False
  then have nb': "\<exists>c \<in> set text. \<not> is_js_space c"
    by (simp add: trim_empty_iff)
  show ?thesis
  proof (cases "10000000 < length text")
    case True
    with nb nb' show ?thesis
      by (simp add: extractJson_def)
  next
    case False
    then have le: "length text \<le> 10000000" by simp
    show ?thesis
    proof (cases "JSON_parse text")
      case (Inl msg)
      with extractJson_rejected [OF nb le Inl, of stack] False le nb' show ?thesis
        by simp
    next
      case (Inr v)
      with nb nb' False show ?thesis
        by (simp add: extractJson_def)
    qed
  qed
qed

section \<open>Recovery line by line\<close>

lemma scenario3_lines:
  \<open>split_lines scenario3 = [''{"a": 1,'', ''BROKEN LINE }'', ''"b": 2}'']\<close>
  by code_simp

lemma scenario3_parse: "JSON_parse scenario3 = Inl (syntax_error_message scenario3)"
  by code_simp

lemma scenario3_trim: "trim scenario3 = scenario3"
  by code_simp

lemma scenario3_shape: "isObject scenario3 \<and> \<not> isArray scenario3"
  by code_simp

lemma scenario3_classified:
  "classified scenario3 msg =
     \<lparr> inString = False, bracketStack = [], currentLine = [],
       warnings = [''Invalid JSON: '' @ msg,
                   ''Potentially corrupt JSON at line 1'',
                   ''Mismatched brackets at line 3'',
                   ''Potentially corrupt JSON at line 3''],
       corruptLineNumbers = [1, 3] \<rparr>"
  by code_simp

lemma scenario3_reconstructed:
  \<open>reconstructed scenario3 msg =
     ''{'' @ [CHR 0x0A] @
     ''  "__corrupt_line_1": null'' @ [CHR 0x0A] @
     ''  BROKEN LINE },'' @ [CHR 0x0A] @
     ''  "__corrupt_line_3": null,'' @ [CHR 0x0A] @
     ''}''\<close>
  by code_simp

lemma scenario3_rebuilt_parse:
  \<open>JSON_parse (reconstructed scenario3 msg) = Inl (syntax_error_message (reconstructed scenario3 msg))\<close>
  by code_simp

lemma scenario3_candidates:
  \<open>candidates scenario3 = [''{"a": 1,'' @ [CHR 0x0A] @ ''BROKEN LINE }'']\<close>
  by code_simp

lemma scenario3_candidate_parse:
  \<open>\<not> parses (''{"a": 1,'' @ [CHR 0x0A] @ ''BROKEN LINE }'')\<close>
  by code_simp

lemma scenario3_length: "length scenario3 = 30"
  by code_simp

lemma scenario3_nonempty: "scenario3 \<noteq> []"
  using scenario3_length by auto

lemma scenario3_stack: "stack_needed scenario3 = 20"
  by code_simp

lemma scenario3_extract: "extractJson (20 + stack) scenario3 = Inr JNull"
proof -
  have "try_matches (candidates scenario3) ([], JNull) = ([], JNull)"
    using scenario3_candidate_parse
    by (simp add: scenario3_candidates parses_def split: sum.splits)
  then show ?thesis
    by (simp add: extractJson_def scenario3_trim scenario3_length scenario3_parse
        try_patterns_candidates scenario3_stack)
qed

lemma scenario3_result:
  "findJsonFragments (20 + stack) scenario3 =
     Inr (JNull,
          [''Invalid JSON: '' @ syntax_error_message scenario3,
           ''Potentially corrupt JSON at line 1'',
           ''Mismatched brackets at line 3'',
           ''Potentially corrupt JSON at line 3'',
           ''Could not recover any valid JSON''])"
  by (simp add: findJsonFragments_def recover_def scenario3_trim scenario3_length scenario3_parse
      scenario3_shape scenario3_rebuilt_parse scenario3_extract scenario3_classified
      scenario3_nonempty)

text \<open>
  C4. The claim promises, for an object-shaped text with one corrupted line, a value other
  than \<open>null\<close> that holds a placeholder for that line. On the third scenario the first
  pass marks the lines 1 and 3 and leaves the broken line 2 unmarked, the text rebuilt by
  the second pass does not parse, no fragment parses either, and \<open>findJsonFragments\<close>
  returns \<open>null\<close>, on every engine whose stack holds the 20 frames that the search for
  the fragments needs.
\<close>

theorem scenario3_not_recovered:
  "corruptLineNumbers (classified scenario3 (syntax_error_message scenario3)) = [1, 3] \<and>
   findJsonFragments (20 + stack) scenario3 =
     Inr (JNull,
          [''Invalid JSON: '' @ syntax_error_message scenario3,
           ''Potentially corrupt JSON at line 1'',
           ''Mismatched brackets at line 3'',
           ''Potentially corrupt JSON at line 3'',
           ''Could not recover any valid JSON''])"
  by (simp add: scenario3_result scenario3_classified)

lemma classify_line_warnings:
  assumes "length (corruptLineNumbers st) + k \<le> length (warnings st)"
  shows "length (corruptLineNumbers (classify_line b n l st)) + k
    \<le> length (warnings (classify_line b n l st))"
proof -
  obtain inS stack flt where sc: "scan_chars [] l (inString st) (bracketStack st) = (inS, stack, flt)"
    by (cases "scan_chars [] l (inString st) (bracketStack st)") auto
  show ?thesis
  proof (cases flt)
    case None
    with assms sc show ?thesis
      by (auto simp: classify_line_def Let_def)
  next
    case (Some f)
    with assms sc show ?thesis
      by (cases f) (auto simp: classify_line_def Let_def)
  qed
qed

lemma first_pass_warnings:
  "length (corruptLineNumbers st) + k \<le> length (warnings st) \<Longrightarrow>
   length (corruptLineNumbers (first_pass b n ls st)) + k \<le> length (warnings (first_pass b n ls st))"
proof (induction ls arbitrary: n st)
  case Nil
  then show ?case by simp
next
  case (Cons l ls)
  from classify_line_warnings [OF Cons.prems] show ?case
    by (simp add: Cons.IH)
qed

text \<open>
  The part of C4 that holds: for an object- or array-shaped text that \<open>JSON.parse\<close>
  rejects, \<open>findJsonFragments\<close> returns more warnings than the first pass has marked
  lines.
\<close>

theorem warnings_outnumber_corrupt_lines:
  assumes "JSON_parse text = Inl msg" and "isObject text \<or> isArray text"
    and "findJsonFragments stack text = Inr (result, ws)"
  shows "length (corruptLineNumbers (classified text msg)) < length ws"
proof -
  have c: "length (corruptLineNumbers (classified text msg)) + 1
      \<le> length (warnings (classified text msg))"
    unfolding classified_def by (rule first_pass_warnings) (simp add: initial_state_def)
  from assms(2) have "trim text \<noteq> []"
    by (auto simp: isObject_def isArray_def startsWith_def)
  with assms have "recover stack text msg = Inr (result, ws)"
    by (auto simp: findJsonFragments_def split: if_splits)
  with assms(2) have "length (warnings (classified text msg)) \<le> length ws"
    by (auto simp: recover_def split: sum.splits if_splits)
  with c show ?thesis by simp
qed

theorem warnings_outnumber_corrupt_lines_witness:
  "length (corruptLineNumbers (classified scenario3 (syntax_error_message scenario3))) <
   length [''Invalid JSON: '' @ syntax_error_message scenario3,
           ''Potentially corrupt JSON at line 1'',
           ''Mismatched brackets at line 3'',
           ''Potentially corrupt JSON at line 3'',
           ''Could not recover any valid JSON'']"
  using warnings_outnumber_corrupt_lines [OF scenario3_parse _ scenario3_result [of 0]]
    scenario3_shape
  by blast

section \<open>Termination of \<open>safeStringify\<close> and the round trip\<close>

















lemma shared_run:
  \<open>safeStringify 3 shared_heap (VRef 0) 2 =
     Returns (''['' @ [CHR 0x0A] @ ''  [],'' @ [CHR 0x0A] @ ''  "[Circular Reference]"'' @ [CHR 0x0A] @ '']'')\<close>
  by code_simp

lemma shared_tree: "tree_of 3 shared_heap (VRef 0) = Some (JArray [JArray [], JArray []])"
  by code_simp

lemma shared_parse:
  \<open>JSON_parse (''['' @ [CHR 0x0A] @ ''  [],'' @ [CHR 0x0A] @ ''  "[Circular Reference]"'' @ [CHR 0x0A] @ '']'') =
     Inr (JArray [JArray [], JString ''[Circular Reference]''])\<close>
  by code_simp

text \<open>
  C6. The claim promises the round trip for every acyclic value. The array \<open>[a, a]\<close> whose
  two elements are the same empty array \<open>a\<close> is acyclic and denotes \<open>[[], []]\<close>;
  \<open>safeStringify\<close> replaces the second occurrence of \<open>a\<close> by the sentinel, and
  \<open>JSON.parse\<close> reads back \<open>[[], "[Circular Reference]"]\<close>.
\<close>

theorem shared_reference_not_restored:
  \<open>tree_of 3 shared_heap (VRef 0) = Some (JArray [JArray [], JArray []]) \<and>
   safeStringify 3 shared_heap (VRef 0) 2 =
     Returns (''['' @ [CHR 0x0A] @ ''  [],'' @ [CHR 0x0A] @ ''  "[Circular Reference]"'' @ [CHR 0x0A] @ '']'') \<and>
   JSON_parse (''['' @ [CHR 0x0A] @ ''  [],'' @ [CHR 0x0A] @ ''  "[Circular Reference]"'' @ [CHR 0x0A] @ '']'') =
     Inr (JArray [JArray [], JString ''[Circular Reference]''])\<close>
  using shared_run shared_tree shared_parse by simp

end
